theory Spec2Isabelle
  imports Main "HOL-Library.FSet" "HOL-Library.Char_ord" "HOL-Library.List_Lexorder"
    "HOL-Library.Product_Lexorder"
begin

section \<open>Python values and errors\<close>

text \<open>
  Python \<open>bytes\<close> and \<open>str\<close> are both modelled as \<open>char list\<close>: an Isabelle
  \<open>char\<close> is one byte, and a \<open>str\<close> stands for its UTF-8 encoding, so that
  \<open>bytes(kw, 'utf-8')\<close> is the identity.  The prefix tests of the engine
  (\<open>kw[:3] == 'in:'\<close>) only look at ASCII characters, where bytes and code
  points coincide.
\<close>

type_synonym bytes = string

datatype error =
    StructError | TypeError | ValueError | KeyError | IndexError
  | PermissionError | ZeroDivisionError

text \<open>Python's slice \<open>xs[a:b]\<close> for non-negative bounds.\<close>

definition slice :: "'a list \<Rightarrow> nat \<Rightarrow> nat \<Rightarrow> 'a list" where
  "slice xs a b = take (b - a) (drop a xs)"

section \<open>struct.pack and struct.unpack, little endian\<close>

fun le_nat :: "bytes \<Rightarrow> nat" where
  "le_nat [] = 0"
| "le_nat (b # bs) = of_char b + 256 * le_nat bs"

fun nat_le :: "nat \<Rightarrow> nat \<Rightarrow> bytes" where
  "nat_le 0 n = []"
| "nat_le (Suc k) n = char_of (n mod 256) # nat_le k (n div 256)"

text \<open>\<open>struct.unpack('<HHI', b)\<close> raises \<open>struct.error\<close> unless \<open>b\<close> has 8 bytes.\<close>

definition unpack_HHI :: "bytes \<Rightarrow> error + (nat \<times> nat \<times> nat)" where
  "unpack_HHI b =
     (if length b \<noteq> 8 then Inl StructError
      else Inr (le_nat (slice b 0 2), le_nat (slice b 2 4), le_nat (slice b 4 8)))"

text \<open>\<open>struct.pack('<HHI', a, b, c)\<close> raises \<open>struct.error\<close> when a field does not fit.\<close>

definition pack_HHI :: "nat \<Rightarrow> nat \<Rightarrow> nat \<Rightarrow> error + bytes" where
  "pack_HHI a b c =
     (if a < 65536 \<and> b < 65536 \<and> c < 4294967296
      then Inr (nat_le 2 a @ nat_le 2 b @ nat_le 4 c)
      else Inl StructError)"

section \<open>PostingListBucket\<close>

text \<open>
  The modules \<open>util/dumbcode.py\<close> and \<open>util/intset.py\<close> are not among the sources.
  An IntSet is modelled from the spec as a finite set of natural numbers with equality by
  value; a decoded value is \<open>None\<close> or an IntSet, hence \<open>intset option\<close>.  The two codec
  functions \<open>dumb_encode_bin\<close> and \<open>dumb_decode\<close> are parameters \<open>enc\<close> and \<open>dec\<close> of
  every function that calls them (the \<open>compress\<close> argument is part of \<open>enc\<close>).
\<close>

type_synonym intset = "nat fset"

record posting_list_bucket =
  blob :: bytes
  deleted :: "intset option"

text \<open>\<open>PostingListBucket(blob)\<close>: \<open>deleted\<close> defaults to \<open>None\<close>.\<close>

definition PostingListBucket :: "bytes \<Rightarrow> posting_list_bucket" where
  "PostingListBucket b = \<lparr>blob = b, deleted = None\<rparr>"

text \<open>Python truthiness of \<open>iset\<close>: \<open>None\<close> and the empty IntSet are false.\<close>

definition truthy :: "intset option \<Rightarrow> bool" where
  "truthy v = (case v of None \<Rightarrow> False | Some s \<Rightarrow> s \<noteq> {||})"

text \<open>
  \<open>items(decode=False)\<close>.  The loop variable \<open>beg\<close> is modelled by the remaining
  suffix \<open>blob[beg:]\<close>, so every slice is relative to it.  A header of fewer than
  8 bytes makes \<open>struct.unpack\<close> raise; a truncated body only shortens the slices.
\<close>

function items :: "bytes \<Rightarrow> error + (bytes \<times> bytes \<times> bytes) list" where
  "items rest =
     (if rest = [] then Inr []
      else case unpack_HHI (slice rest 0 8) of
        Inl e \<Rightarrow> Inl e
      | Inr (kw_ln, c_ln, iset_ln) \<Rightarrow>
          (let cbeg = 8 + kw_ln; end = cbeg + c_ln + iset_ln in
           case items (drop end rest) of
             Inl e \<Rightarrow> Inl e
           | Inr others \<Rightarrow>
               Inr ((slice rest 8 cbeg, slice rest cbeg (cbeg + c_ln),
                     slice rest (cbeg + c_ln) end) # others)))"
  by pat_completeness auto
termination
  by (relation "measure length") auto

declare items.simps [simp del]

text \<open>The loop of \<open>_find_iset\<close>, with its accumulators \<open>chunks\<close>, \<open>bcomment\<close>, \<open>iset\<close>.\<close>

function find_iset_loop ::
  "(bytes \<Rightarrow> intset option) \<Rightarrow> bytes \<Rightarrow> bytes \<Rightarrow> bytes list \<Rightarrow> bytes \<Rightarrow> intset option
     \<Rightarrow> error + (bytes list \<times> bytes \<times> intset option)" where
  "find_iset_loop dec bkeyword rest chunks bcomment iset =
     (if rest = [] then Inr (chunks, bcomment, iset)
      else case unpack_HHI (slice rest 0 8) of
        Inl e \<Rightarrow> Inl e
      | Inr (kw_ln, c_ln, iset_ln) \<Rightarrow>
          (let cbeg = 8 + kw_ln; end = cbeg + c_ln + iset_ln; kw = slice rest 8 cbeg in
           if kw \<noteq> bkeyword
           then find_iset_loop dec bkeyword (drop end rest)
                  (chunks @ [slice rest 0 end]) bcomment iset
           else find_iset_loop dec bkeyword (drop end rest) chunks
                  (slice rest cbeg (cbeg + c_ln)) (dec (slice rest (cbeg + c_ln) end))))"
  by pat_completeness auto
termination
  by (relation "measure (\<lambda>(dec, bkeyword, rest, chunks, bcomment, iset). length rest)") auto

declare find_iset_loop.simps [simp del]

definition find_iset ::
  "(bytes \<Rightarrow> intset option) \<Rightarrow> posting_list_bucket \<Rightarrow> bytes
     \<Rightarrow> error + (bytes list \<times> bytes \<times> bytes \<times> intset option)" where
  "find_iset dec self kw =
     (case find_iset_loop dec kw (blob self) [] [] None of
        Inl e \<Rightarrow> Inl e
      | Inr (chunks, bcomment, iset) \<Rightarrow> Inr (chunks, kw, bcomment, iset))"

text \<open>\<open>remove\<close> returns \<open>(bcomment, iset)\<close> and the bucket after the call.\<close>

definition remove_plb ::
  "(bytes \<Rightarrow> intset option) \<Rightarrow> posting_list_bucket \<Rightarrow> bytes
     \<Rightarrow> error + ((bytes \<times> intset option) \<times> posting_list_bucket)" where
  "remove_plb dec self keyword =
     (case find_iset dec self keyword of
        Inl e \<Rightarrow> Inl e
      | Inr (chunks, bkeyword, bcomment, iset) \<Rightarrow>
          Inr ((bcomment, iset),
               if iset \<noteq> None then self\<lparr>blob := concat chunks\<rparr> else self))"

text \<open>
  \<open>set(keyword, iset, comment, bkeyword, chunks)\<close>.  The last two arguments are one
  optional pair here: the callers pass both or neither.
\<close>

definition set_plb ::
  "(intset option \<Rightarrow> bytes) \<Rightarrow> (bytes \<Rightarrow> intset option) \<Rightarrow> posting_list_bucket \<Rightarrow> bytes
     \<Rightarrow> intset option \<Rightarrow> bytes \<Rightarrow> (bytes \<times> bytes list) option
     \<Rightarrow> error + posting_list_bucket" where
  "set_plb enc dec self keyword iset comment given =
     (case (case given of
              Some (bkeyword, chunks) \<Rightarrow>
                if bkeyword \<noteq> [] \<and> chunks \<noteq> [] then Inr (chunks, bkeyword, [], None)
                else find_iset dec self keyword
            | None \<Rightarrow> find_iset dec self keyword) of
        Inl e \<Rightarrow> Inl e
      | Inr (chunks, bkeyword, bcomment0, _) \<Rightarrow>
          (let bcomment = (if comment \<noteq> [] then comment else bcomment0);
               iset_blob = enc iset in
           if bcomment \<noteq> [] \<or> truthy iset
           then (case pack_HHI (length bkeyword) (length bcomment) (length iset_blob) of
                   Inl e \<Rightarrow> Inl e
                 | Inr header \<Rightarrow>
                     Inr (self\<lparr>blob :=
                       concat (chunks @ [header, bkeyword, bcomment, iset_blob])\<rparr>))
           else Inr (self\<lparr>blob := concat chunks\<rparr>)))"

text \<open>\<open>add(keyword, ints)\<close>; \<open>ints\<close> is the set of the ids passed in.\<close>

definition add_plb ::
  "(intset option \<Rightarrow> bytes) \<Rightarrow> (bytes \<Rightarrow> intset option) \<Rightarrow> posting_list_bucket \<Rightarrow> bytes
     \<Rightarrow> intset \<Rightarrow> error + posting_list_bucket" where
  "add_plb enc dec self keyword ints =
     (case find_iset dec self keyword of
        Inl e \<Rightarrow> Inl e
      | Inr (chunks, bkeyword, bcomment, iset) \<Rightarrow>
          (let iset1 = (case iset of None \<Rightarrow> {||} | Some s \<Rightarrow> s);
               iset2 = (if ints \<noteq> {||} then iset1 |\<union>| ints else iset1);
               iset3 = (case deleted self of None \<Rightarrow> iset2 | Some d \<Rightarrow> iset2 |-| d) in
           set_plb enc dec self keyword (Some iset3) bcomment (Some (bkeyword, chunks))))"

definition set_comment_plb ::
  "(intset option \<Rightarrow> bytes) \<Rightarrow> (bytes \<Rightarrow> intset option) \<Rightarrow> posting_list_bucket \<Rightarrow> bytes
     \<Rightarrow> bytes \<Rightarrow> error + posting_list_bucket" where
  "set_comment_plb enc dec self keyword comment =
     (case find_iset dec self keyword of
        Inl e \<Rightarrow> Inl e
      | Inr (chunks, bkeyword, ocomment, iset) \<Rightarrow>
          set_plb enc dec self keyword iset comment (Some (bkeyword, chunks)))"

text \<open>\<open>get(keyword, with_comment=True)\<close>; \<open>get(keyword)\<close> is its second component.\<close>

definition get_plb ::
  "(bytes \<Rightarrow> intset option) \<Rightarrow> posting_list_bucket \<Rightarrow> bytes
     \<Rightarrow> error + (bytes \<times> intset option)" where
  "get_plb dec self keyword =
     (case find_iset dec self keyword of
        Inl e \<Rightarrow> Inl e
      | Inr (chunks, bkeyword, bcomment, iset) \<Rightarrow> Inr (bcomment, iset))"


section \<open>Byte layout of a well-formed bucket\<close>

text \<open>
  The bytes one triple occupies: the \<open><HHI\<close> header, keyword, comment, IntSet blob.
  \<open>fits\<close> says that the three lengths fit their header fields.
\<close>

definition header_bytes :: "bytes \<times> bytes \<times> bytes \<Rightarrow> bytes" where
  "header_bytes t = (case t of (kw, c, ib) \<Rightarrow>
     nat_le 2 (length kw) @ nat_le 2 (length c) @ nat_le 4 (length ib))"

definition triple_bytes :: "bytes \<times> bytes \<times> bytes \<Rightarrow> bytes" where
  "triple_bytes t = (case t of (kw, c, ib) \<Rightarrow> header_bytes t @ kw @ c @ ib)"

definition fits :: "bytes \<times> bytes \<times> bytes \<Rightarrow> bool" where
  "fits t = (case t of (kw, c, ib) \<Rightarrow>
     length kw < 65536 \<and> length c < 65536 \<and> length ib < 4294967296)"

text \<open>The blob that holds the triples \<open>ts\<close>, in this order.\<close>

definition serialize :: "(bytes \<times> bytes \<times> bytes) list \<Rightarrow> bytes" where
  "serialize ts = concat (map triple_bytes ts)"

text \<open>A blob is well formed when it is exactly the concatenation of the triples read from it.\<close>

definition wf_blob :: "bytes \<Rightarrow> bool" where
  "wf_blob b = (case items b of
      Inl e \<Rightarrow> False
    | Inr ts \<Rightarrow> list_all fits ts \<and> serialize ts = b)"

text \<open>
  The invariant of the data model: well formed, keywords unique, and no triple whose
  comment is empty and whose IntSet is empty (or \<open>None\<close>).
\<close>

definition stored_ok :: "(bytes \<Rightarrow> intset option) \<Rightarrow> bytes \<times> bytes \<times> bytes \<Rightarrow> bool" where
  "stored_ok dec t = (case t of (kw, c, ib) \<Rightarrow> c \<noteq> [] \<or> truthy (dec ib))"

definition bucket_inv :: "(bytes \<Rightarrow> intset option) \<Rightarrow> bytes \<Rightarrow> bool" where
  "bucket_inv dec b = (case items b of
      Inl e \<Rightarrow> False
    | Inr ts \<Rightarrow> list_all fits ts \<and> serialize ts = b
        \<and> distinct (map fst ts) \<and> list_all (stored_ok dec) ts)"

text \<open>The keywords that have a triple in a blob (none when the blob cannot be read).\<close>

definition keywords_of :: "bytes \<Rightarrow> bytes set" where
  "keywords_of b = (case items b of Inl e \<Rightarrow> {} | Inr ts \<Rightarrow> set (map fst ts))"


text \<open>
  What \<open>_find_iset\<close> leaves in \<open>(bcomment, iset)\<close> after reading the triples \<open>ts\<close>:
  the comment and decoded IntSet of the last triple stored under \<open>k\<close>.
\<close>

fun last_match ::
  "(bytes \<Rightarrow> intset option) \<Rightarrow> bytes \<Rightarrow> (bytes \<times> bytes \<times> bytes) list
     \<Rightarrow> bytes \<times> intset option \<Rightarrow> bytes \<times> intset option" where
  "last_match dec k [] acc = acc"
| "last_match dec k ((kw, c, ib) # ts) acc =
     last_match dec k ts (if kw = k then (c, dec ib) else acc)"

text \<open>
  What \<open>set\<close> writes on a bucket holding the triples \<open>ts\<close>, once the comment \<open>c\<close> to
  store is known: the triples of other keywords, then the new triple unless both the
  comment and the IntSet are empty.
\<close>

definition set_result ::
  "(intset option \<Rightarrow> bytes) \<Rightarrow> posting_list_bucket \<Rightarrow> (bytes \<times> bytes \<times> bytes) list \<Rightarrow> bytes
     \<Rightarrow> intset option \<Rightarrow> bytes \<Rightarrow> error + posting_list_bucket" where
  "set_result enc b ts k iset c =
     (if c \<noteq> [] \<or> truthy iset then
        (if fits (k, c, enc iset)
         then Inr (b\<lparr>blob := serialize
                 (filter (\<lambda>t. fst t \<noteq> k) ts @ [(k, c, enc iset)])\<rparr>)
         else Inl StructError)
      else Inr (b\<lparr>blob := serialize (filter (\<lambda>t. fst t \<noteq> k) ts)\<rparr>))"


section \<open>IntSet operations, query terms and the missing collaborators\<close>

text \<open>
  Modelled from the spec: the class methods \<open>IntSet.Or\<close>, \<open>IntSet.And\<close>, \<open>IntSet.Sub\<close>
  and \<open>IntSet.All\<close> of \<open>util/intset.py\<close>, which is not among the sources.  \<open>Or\<close> is
  the union and \<open>And\<close> the intersection of its arguments, \<open>Sub(a, b, ...)\<close> removes
  every further argument from the first, \<open>All(n)\<close> is \<open>{0..n-1}\<close>.  \<open>And\<close> and
  \<open>Sub\<close> of no argument are taken to be empty, and \<open>All\<close> applied to IntSets to fail.
\<close>

datatype setop = IntSet_Or | IntSet_And | IntSet_Sub | IntSet_All

definition IntSet_All_upto :: "int \<Rightarrow> intset" where
  "IntSet_All_upto n = fset_of_list [0..<nat n]"

fun apply_setop :: "setop \<Rightarrow> intset list \<Rightarrow> error + intset" where
  "apply_setop IntSet_Or sets = Inr (fold (|\<union>|) sets {||})"
| "apply_setop IntSet_And [] = Inr {||}"
| "apply_setop IntSet_And (a # sets) = Inr (fold (\<lambda>x acc. acc |\<inter>| x) sets a)"
| "apply_setop IntSet_Sub [] = Inr {||}"
| "apply_setop IntSet_Sub (a # sets) = Inr (fold (\<lambda>x acc. acc |-| x) sets a)"
| "apply_setop IntSet_All sets = Inl TypeError"

text \<open>
  A query is a string, one of the IntSet class methods, a tuple or a list.
\<close>

datatype qterm = TStr string | TFun setop | TTuple "qterm list" | TList "qterm list"

text \<open>
  The functions the engine imports from modules that are not among the sources are the
  fields of \<open>env\<close>: the codec (\<open>util/dumbcode.py\<close>), the key hash of the record store
  (\<open>storage/records.py\<close>), tag quoting (\<open>util/mailpile.py\<close>), the version and date
  keywords (\<open>search/versions.py\<close>, \<open>search/dates.py\<close>, the latter with
  \<open>kw_date='vdate'\<close>) and the query parser with its magic map
  (\<open>search/parse_greedy.py\<close>).  A JSON object is a list of key/value pairs.
\<close>

record env =
  dumb_decode :: "bytes \<Rightarrow> intset option"
  dumb_encode_bin :: "intset option \<Rightarrow> bytes"
  dumb_encode_asc :: "intset \<Rightarrow> string"
  from_json :: "bytes \<Rightarrow> (string \<times> string) list"
  to_json :: "(string \<times> string) list \<Rightarrow> string"
  hash_key :: "string \<Rightarrow> bytes"
  tag_quote :: "string \<Rightarrow> string"
  tag_unquote :: "string \<Rightarrow> error + string"
  version_to_keywords :: "int \<Rightarrow> string list"
  ts_to_keywords :: "int \<Rightarrow> string list"
  parse_terms :: "string \<Rightarrow> qterm"

section \<open>The engine state\<close>

text \<open>
  A history record \<open>{id, ts, comment, version, changes}\<close>.  The id
  \<open>'%.3x-%x' % (slot, random)\<close> is kept as the pair of numbers it prints;
  \<open>int(hist_id.split('-')[0], 16)\<close> reads the first one back.
\<close>

record history_entry =
  h_id :: "nat \<times> nat"
  h_ts :: int
  h_comment :: string
  h_version :: int
  h_changes :: "(string \<times> nat \<times> string \<times> string) list"

text \<open>
  Modelled from the spec: the record store of \<open>storage/records.py\<close>, a sparse map from
  record numbers to values, with \<open>get(idx)\<close> returning \<open>None\<close> for an absent record,
  \<open>records[idx] = v\<close> replacing the record, and the hashed-key map \<open>keys\<close> from
  \<open>hash_key(kw)\<close> to \<open>(position, index)\<close>.  The values the engine stores are bucket
  blobs, history records, and the status dictionary \<open>{ver, pos}\<close>.
\<close>

datatype recval =
    RBytes bytes
  | RHistory history_entry
  | RStatus "string \<Rightarrow> int option"

record engine =
  records :: "nat \<Rightarrow> recval option"
  keys :: "bytes \<Rightarrow> (nat \<times> nat) option"
  history :: "string \<Rightarrow> int option"
  l1_begin :: nat
  l2_begin :: nat
  l2_buckets :: nat
  maxint :: int
  deleted_ids :: intset
  part_spaces_1 :: "string set"

definition IDX_HISTORY_STATUS :: nat where "IDX_HISTORY_STATUS = 1000"
definition IDX_HISTORY_START :: int where "IDX_HISTORY_START = 1001"
definition IDX_HISTORY_END :: int where "IDX_HISTORY_END = 2000"

text \<open>\<open>self.history.get(k, d)\<close>\<close>

definition history_get :: "engine \<Rightarrow> string \<Rightarrow> int \<Rightarrow> int" where
  "history_get s k d = (case history s k of None \<Rightarrow> d | Some v \<Rightarrow> v)"

text \<open>\<open>_allocate_history_slot\<close> returns \<open>(pos, ver)\<close> and the new state.\<close>

definition allocate_history_slot :: "engine \<Rightarrow> (int \<times> int) \<times> engine" where
  "allocate_history_slot s =
     (let pos = history_get s ''pos'' IDX_HISTORY_END + 1;
          pos = (if pos > IDX_HISTORY_END then IDX_HISTORY_START else pos);
          h1 = (history s)(''pos'' \<mapsto> pos);
          ver = (case h1 ''ver'' of None \<Rightarrow> 0 | Some v \<Rightarrow> v) + 1;
          h2 = h1(''ver'' \<mapsto> ver)
      in ((pos, ver),
          s\<lparr>history := h2, records := (records s)(IDX_HISTORY_STATUS \<mapsto> RStatus h2)\<rparr>))"

text \<open>\<open>get_version\<close>\<close>

definition get_version :: "engine \<Rightarrow> int" where
  "get_version s = history_get s ''ver'' 0"

section \<open>Keyword placement\<close>

text \<open>
  \<open>_empty_l1_idx\<close>: the scan of \<open>range(l1_begin, l2_begin)\<close>, from \<open>idx\<close> on.  Falling
  out of the loop executes \<open>raise None\<close>, which Python answers with a \<open>TypeError\<close>
  (exceptions must derive from BaseException).
\<close>

function empty_l1_from :: "engine \<Rightarrow> nat \<Rightarrow> error + nat" where
  "empty_l1_from s idx =
     (if idx \<ge> l2_begin s then Inl TypeError
      else if records s idx = None then Inr idx
      else empty_l1_from s (idx + 1))"
  by pat_completeness auto
termination
  by (relation "measure (\<lambda>(s, idx). l2_begin s - idx)") auto

declare empty_l1_from.simps [simp del]

definition empty_l1_idx :: "engine \<Rightarrow> error + nat" where
  "empty_l1_idx s = empty_l1_from s (l1_begin s)"

text \<open>
  \<open>keyword_index(kw, prefer_l1, create)\<close> returns the index and the new state.
  \<open>set_key(kw, idx)\<close> stores \<open>(position, idx)\<close> under \<open>hash_key(kw)\<close>; the position
  is never read by the engine and is 0 here.  \<open>struct.unpack('<I', kw_hash[:4])\<close>
  needs four bytes, and \<open>%\<close> a non-zero divisor.
\<close>

definition keyword_index ::
  "env \<Rightarrow> engine \<Rightarrow> string \<Rightarrow> bool option \<Rightarrow> bool \<Rightarrow> error + (nat \<times> engine)" where
  "keyword_index E s kw prefer_l1 create =
     (let kw_hash = hash_key E kw;
          prefer_l1 = (if prefer_l1 = None \<and> take 3 kw = ''in:'' then Some True
                       else prefer_l1)
      in case keys s kw_hash of
           Some kw_pos_idx \<Rightarrow> Inr (snd kw_pos_idx, s)
         | None \<Rightarrow>
             if prefer_l1 = Some True \<and> create then
               (case empty_l1_idx s of
                  Inl e \<Rightarrow> Inl e
                | Inr idx \<Rightarrow>
                    Inr (idx, s\<lparr>keys := (keys s)(kw_hash \<mapsto> (0, idx)),
                                records := (records s)(idx \<mapsto> RBytes [])\<rparr>))
             else if length (take 4 kw_hash) \<noteq> 4 then Inl StructError
             else if l2_buckets s = 0 then Inl ZeroDivisionError
             else Inr (le_nat (take 4 kw_hash) mod l2_buckets s + l2_begin s, s))"

text \<open>
  \<open>PostingListBucket(self.records.get(idx) or b'')\<close>: an absent record and an empty
  blob give the empty bucket.  A record that is not a byte string makes the first
  method call on the bucket fail; that is the \<open>TypeError\<close> here.
\<close>

definition bucket_at :: "engine \<Rightarrow> nat \<Rightarrow> error + posting_list_bucket" where
  "bucket_at s idx =
     (case records s idx of
        None \<Rightarrow> Inr (PostingListBucket [])
      | Some (RBytes b) \<Rightarrow> Inr (PostingListBucket b)
      | Some _ \<Rightarrow> Inl TypeError)"

text \<open>\<open>__getitem__\<close>: \<open>keyword_index\<close> is called with \<open>create=False\<close> and leaves the state alone.\<close>

definition getitem :: "env \<Rightarrow> engine \<Rightarrow> string \<Rightarrow> error + intset" where
  "getitem E s keyword =
     (case keyword_index E s keyword None False of
        Inl e \<Rightarrow> Inl e
      | Inr (idx, _) \<Rightarrow>
          (case bucket_at s idx of
             Inl e \<Rightarrow> Inl e
           | Inr plb \<Rightarrow>
               (case get_plb (dumb_decode E) plb keyword of
                  Inl e \<Rightarrow> Inl e
                | Inr (_, iset) \<Rightarrow>
                    Inr (case iset of None \<Rightarrow> {||}
                         | Some x \<Rightarrow> if x \<noteq> {||} then x else {||}))))"


section \<open>Tags and namespaces\<close>

text \<open>\<open>_ns(k, ns)\<close>\<close>

definition ns_kw :: "string \<Rightarrow> string \<Rightarrow> error + string" where
  "ns_kw k ns =
     (if ns \<noteq> [] \<and> take 3 k = ''in:'' then
        (if CHR ''@'' \<in> set k then Inl PermissionError
         else Inr (k @ ''@'' @ ns))
      else Inr k)"

text \<open>\<open>s in t\<close> for strings\<close>

fun contains_str :: "string \<Rightarrow> string \<Rightarrow> bool" where
  "contains_str [] sub = (sub = [])"
| "contains_str (c # cs) sub = (take (length sub) (c # cs) = sub \<or> contains_str cs sub)"

text \<open>\<open>kw.endswith(suffix)\<close>\<close>

definition endswith :: "string \<Rightarrow> string \<Rightarrow> bool" where
  "endswith kw suffix = (length suffix \<le> length kw \<and> drop (length kw - length suffix) kw = suffix)"

text \<open>\<open>tag_quote_magic\<close>: only a \<open>ValueError\<close> of \<open>tag_unquote\<close> is caught.\<close>

definition tag_quote_magic :: "env \<Rightarrow> string \<Rightarrow> error + string" where
  "tag_quote_magic E term =
     (if CHR ''%'' \<in> set term then
        (case tag_unquote E term of
           Inr u \<Rightarrow> Inr (tag_quote E u)
         | Inl ValueError \<Rightarrow> Inr (tag_quote E term)
         | Inl e \<Rightarrow> Inl e)
      else Inr (tag_quote E term))"

text \<open>
  The tags one bucket contributes to \<open>iter_tags\<close>: \<open>(kw, (comment, iset or no_hits))\<close>
  for every triple whose keyword is a tag, with the namespace suffix removed when a
  namespace is given.
\<close>

definition bucket_tags ::
  "env \<Rightarrow> string \<Rightarrow> (bytes \<times> bytes \<times> bytes) list \<Rightarrow> (string \<times> bytes \<times> intset) list" where
  "bucket_tags E tag_namespace ts =
     concat (map (\<lambda>(kw, comment, iset).
       let hits = (case dumb_decode E iset of None \<Rightarrow> {||} | Some x \<Rightarrow> x) in
       if tag_namespace = [] then
         (if length kw > 3 \<and> take 3 kw = ''in:'' \<and> kw ! 3 \<noteq> CHR ''@''
          then [(kw, (comment, hits))] else [])
       else
         (if length kw > 3 \<and> take 3 kw = ''in:'' \<and> kw ! 3 \<noteq> CHR ''@''
             \<and> endswith kw (''@'' @ tag_namespace)
          then [(takeWhile (\<lambda>c. c \<noteq> CHR ''@'') kw, (comment, hits))] else [])) ts)"

text \<open>
  \<open>iter_tags\<close>, from record \<open>idx\<close> on: the scan stops at the first absent record.
  The generator is consumed at once by its callers, so it is a list here.
\<close>

function iter_tags_from ::
  "env \<Rightarrow> engine \<Rightarrow> string \<Rightarrow> nat \<Rightarrow> error + (string \<times> bytes \<times> intset) list" where
  "iter_tags_from E s tag_namespace idx =
     (if idx \<ge> l2_begin s then Inr []
      else if records s idx = None then Inr []
      else case bucket_at s idx of
        Inl e \<Rightarrow> Inl e
      | Inr plb \<Rightarrow>
          (case items (blob plb) of
             Inl e \<Rightarrow> Inl e
           | Inr ts \<Rightarrow>
               (case iter_tags_from E s tag_namespace (idx + 1) of
                  Inl e \<Rightarrow> Inl e
                | Inr rest \<Rightarrow> Inr (bucket_tags E tag_namespace ts @ rest))))"
  by pat_completeness auto
termination
  by (relation "measure (\<lambda>(E, s, ns, idx). l2_begin s - idx)") auto

declare iter_tags_from.simps [simp del]

definition iter_tags :: "env \<Rightarrow> engine \<Rightarrow> string \<Rightarrow> error + (string \<times> bytes \<times> intset) list" where
  "iter_tags E s tag_namespace = iter_tags_from E s tag_namespace (l1_begin s)"

section \<open>Adding results and touching\<close>

text \<open>
  The part of \<open>touch\<close> before \<open>if ids is not None\<close>: it is all of \<open>touch()\<close> when no
  ids are given.  \<open>now\<close> is the clock reading \<open>ts or time.time()\<close>.
\<close>

definition touch_version :: "env \<Rightarrow> engine \<Rightarrow> int option \<Rightarrow> int \<Rightarrow> string list \<times> engine" where
  "touch_version E s version now =
     (let (version, s1) =
        (case version of
           None \<Rightarrow>
             (let v = history_get s ''ver'' 0 + 1;
                  h = (history s)(''ver'' \<mapsto> v)
              in (v, s\<lparr>history := h,
                       records := (records s)(IDX_HISTORY_STATUS \<mapsto> RStatus h)\<rparr>))
         | Some v \<Rightarrow> (v, s))
      in (version_to_keywords E version @ ts_to_keywords E now, s1))"

text \<open>The rewriting of one keyword in \<open>_prep_results\<close>.\<close>

definition prep_keyword :: "env \<Rightarrow> string \<Rightarrow> string \<Rightarrow> error + string" where
  "prep_keyword E tag_ns kw =
     (let kw = filter (\<lambda>c. c \<noteq> CHR ''*'') kw;
          kw = (if take 4 kw = ''tag:'' then ''in:'' @ drop 4 kw else kw)
      in if take 3 kw = ''in:''
         then tag_quote_magic E (if tag_ns \<noteq> [] then kw @ ''@'' @ tag_ns else kw)
         else Inr kw)"

text \<open>\<open>keywords[kw] = keywords.get(kw, []) + [r_id]\<close> on an insertion-ordered dict.\<close>

fun dict_append :: "(string \<times> nat list) list \<Rightarrow> string \<Rightarrow> nat \<Rightarrow> (string \<times> nat list) list" where
  "dict_append [] kw r_id = [(kw, [r_id])]"
| "dict_append ((k, v) # d) kw r_id =
     (if k = kw then (k, v @ [r_id]) # d else (k, v) # dict_append d kw r_id)"

text \<open>The loop \<open>for kw in kw_list + extra_kws\<close>.\<close>

fun prep_kws ::
  "env \<Rightarrow> string \<Rightarrow> nat \<Rightarrow> string list \<Rightarrow> (string \<times> nat list) list
     \<Rightarrow> error + (string \<times> nat list) list" where
  "prep_kws E tag_ns r_id [] keywords = Inr keywords"
| "prep_kws E tag_ns r_id (kw # kws) keywords =
     (case prep_keyword E tag_ns kw of
        Inl e \<Rightarrow> Inl e
      | Inr k \<Rightarrow> prep_kws E tag_ns r_id kws (dict_append keywords k r_id))"

text \<open>The loop \<open>for r_id in r_ids\<close>; the state is \<open>(maxint, keywords, hits)\<close>.\<close>

fun prep_ids ::
  "env \<Rightarrow> string \<Rightarrow> string list \<Rightarrow> string list \<Rightarrow> nat list
     \<Rightarrow> int \<times> (string \<times> nat list) list \<times> nat list
     \<Rightarrow> error + (int \<times> (string \<times> nat list) list \<times> nat list)" where
  "prep_ids E tag_ns kw_list extra_kws [] st = Inr st"
| "prep_ids E tag_ns kw_list extra_kws (r_id # r_ids) (mx, keywords, hits) =
     (let mx = (if int r_id \<ge> mx then int r_id + 1 else mx) in
      case prep_kws E tag_ns r_id (kw_list @ extra_kws) keywords of
        Inl e \<Rightarrow> Inl e
      | Inr keywords \<Rightarrow>
          prep_ids E tag_ns kw_list extra_kws r_ids
            (mx, keywords, if kw_list \<noteq> [] then hits @ [r_id] else hits))"

text \<open>The loop \<open>for (r_ids, kw_list) in results\<close>.\<close>

fun prep_loop ::
  "env \<Rightarrow> string \<Rightarrow> string list \<Rightarrow> (nat list \<times> string list) list
     \<Rightarrow> int \<times> (string \<times> nat list) list \<times> nat list
     \<Rightarrow> error + (int \<times> (string \<times> nat list) list \<times> nat list)" where
  "prep_loop E tag_ns extra_kws [] st = Inr st"
| "prep_loop E tag_ns extra_kws ((r_ids, kw_list) # results) st =
     (case prep_ids E tag_ns kw_list extra_kws r_ids st of
        Inl e \<Rightarrow> Inl e
      | Inr st \<Rightarrow> prep_loop E tag_ns extra_kws results st)"

text \<open>\<open>[(self.keyword_index(k, prefer_l1=prefer_l1, create=create), k) for k in keywords]\<close>\<close>

fun index_keywords ::
  "env \<Rightarrow> engine \<Rightarrow> bool option \<Rightarrow> bool \<Rightarrow> string list \<Rightarrow> error + ((nat \<times> string) list \<times> engine)" where
  "index_keywords E s prefer_l1 create [] = Inr ([], s)"
| "index_keywords E s prefer_l1 create (k # ks) =
     (case keyword_index E s k prefer_l1 create of
        Inl e \<Rightarrow> Inl e
      | Inr (idx, s1) \<Rightarrow>
          (case index_keywords E s1 prefer_l1 create ks of
             Inl e \<Rightarrow> Inl e
           | Inr (rest, s2) \<Rightarrow> Inr ((idx, k) # rest, s2)))"

text \<open>
  \<open>_prep_results\<close> returns \<open>(kw_idx_list, keywords, hits)\<close> and the new state.  The ids
  of an entry are a list of non-negative integers and its keywords a list (a single
  id or keyword is the one-element list).
\<close>

definition prep_results ::
  "env \<Rightarrow> engine \<Rightarrow> (nat list \<times> string list) list \<Rightarrow> bool option \<Rightarrow> string \<Rightarrow> bool \<Rightarrow> bool
     \<Rightarrow> int \<Rightarrow> error + (((nat \<times> string) list \<times> (string \<times> intset) list \<times> nat list) \<times> engine)" where
  "prep_results E s results prefer_l1 tag_ns touch create now =
     (let extra_kws = (if tag_ns \<noteq> [] then [''in:''] else []);
          (extra_kws, s1) =
             (if touch then (let (kws, s') = touch_version E s None now in (extra_kws @ kws, s'))
              else (extra_kws, s))
      in case prep_loop E tag_ns extra_kws results (maxint s1, [], []) of
           Inl e \<Rightarrow> Inl e
         | Inr (mx, keywords, hits) \<Rightarrow>
             (case index_keywords E (s1\<lparr>maxint := mx\<rparr>) prefer_l1 create (map fst keywords) of
                Inl e \<Rightarrow> Inl e
              | Inr (kw_idx_list, s2) \<Rightarrow>
                  Inr ((kw_idx_list, map (\<lambda>(k, ids). (k, fset_of_list ids)) keywords, hits),
                       s2)))"


text \<open>
  The loop of \<open>add_results\<close> over \<open>sorted(kw_idx_list)\<close>: load the bucket, set its
  \<open>deleted\<close>, \<open>add\<close>, write the blob back.
\<close>

fun add_loop ::
  "env \<Rightarrow> engine \<Rightarrow> (string \<times> intset) list \<Rightarrow> (nat \<times> string) list \<Rightarrow> error + engine" where
  "add_loop E s keywords [] = Inr s"
| "add_loop E s keywords ((idx, kw) # rest) =
     (case bucket_at s idx of
        Inl e \<Rightarrow> Inl e
      | Inr plb \<Rightarrow>
          (case map_of keywords kw of
             None \<Rightarrow> Inl KeyError
           | Some ids \<Rightarrow>
               (case add_plb (dumb_encode_bin E) (dumb_decode E)
                       (plb\<lparr>deleted := Some (deleted_ids s)\<rparr>) kw ids of
                  Inl e \<Rightarrow> Inl e
                | Inr plb \<Rightarrow>
                    add_loop E (s\<lparr>records := (records s)(idx \<mapsto> RBytes (blob plb))\<rparr>)
                      keywords rest)))"

text \<open>\<open>add_results\<close> returns \<open>(len(keywords), hits)\<close> and the new state.\<close>

definition add_results ::
  "env \<Rightarrow> engine \<Rightarrow> (nat list \<times> string list) list \<Rightarrow> bool option \<Rightarrow> string \<Rightarrow> bool \<Rightarrow> int
     \<Rightarrow> error + ((nat \<times> nat list) \<times> engine)" where
  "add_results E s results prefer_l1 tag_namespace touch now =
     (case prep_results E s results prefer_l1 tag_namespace touch True now of
        Inl e \<Rightarrow> Inl e
      | Inr ((kw_idx_list, keywords, hits), s1) \<Rightarrow>
          (case add_loop E s1 keywords (sort kw_idx_list) of
             Inl e \<Rightarrow> Inl e
           | Inr s2 \<Rightarrow>
               Inr ((length keywords, hits),
                    s2\<lparr>part_spaces_1 := part_spaces_1 s2 \<union> set (map fst keywords)\<rparr>)))"

text \<open>
  \<open>touch(ids, version)\<close> returns the keywords and the new state; the ids are visited
  in ascending order.
\<close>

definition touch ::
  "env \<Rightarrow> engine \<Rightarrow> intset option \<Rightarrow> int option \<Rightarrow> int \<Rightarrow> error + (string list \<times> engine)" where
  "touch E s ids version now =
     (let (kws, s1) = touch_version E s version now in
      case ids of
        None \<Rightarrow> Inr (kws, s1)
      | Some i \<Rightarrow>
          (case add_results E s1 [(sorted_list_of_fset i, kws)] None [] False now of
             Inl e \<Rightarrow> Inl e
           | Inr (_, s2) \<Rightarrow> Inr (kws, s2)))"

section \<open>Mutations\<close>

text \<open>
  An entry of \<open>mlist\<close> is \<open>(scope, [(op, kw)])\<close>; the scope is an IntSet or, for a
  comment edit, a dict.  An op is given as a string or as an IntSet class method.
\<close>

datatype scope = Ids intset | Patch "(string \<times> string) list"

datatype opspec = OpStr string | OpFn setop

text \<open>The inner function \<open>_op\<close>.\<close>

definition mutate_op :: "opspec \<Rightarrow> error + setop" where
  "mutate_op o' =
     (let o' = (if o' = OpStr ''+'' then OpFn IntSet_Or
                else if o' = OpStr ''-'' then OpFn IntSet_Sub else o')
      in if o' = OpFn IntSet_Or then Inr IntSet_Or
         else if o' = OpFn IntSet_Sub then Inr IntSet_Sub
         else Inl ValueError)"

text \<open>\<open>(op, tag, self.keyword_index(tag, create=False))\<close> for each tag.\<close>

fun index_tags ::
  "env \<Rightarrow> engine \<Rightarrow> setop \<Rightarrow> string list \<Rightarrow> error + (setop \<times> string \<times> nat) list" where
  "index_tags E s op [] = Inr []"
| "index_tags E s op (tag # tags) =
     (case keyword_index E s tag None False of
        Inl e \<Rightarrow> Inl e
      | Inr (idx, _) \<Rightarrow>
          (case index_tags E s op tags of
             Inl e \<Rightarrow> Inl e
           | Inr rest \<Rightarrow> Inr ((op, tag, idx) # rest)))"

text \<open>
  The inner generator \<open>_op_kwi\<close>, consumed at once by \<open>extend\<close>.  In the \<open>in:*\<close>
  branch neither \<open>iter_tags\<close> nor \<open>keyword_index(create=False)\<close> changes the state, so
  the tags are listed first here.
\<close>

definition op_kwi ::
  "env \<Rightarrow> engine \<Rightarrow> string \<Rightarrow> opspec \<Rightarrow> string
     \<Rightarrow> error + ((setop \<times> string \<times> nat) list \<times> engine)" where
  "op_kwi E s tag_namespace op kw =
     (case mutate_op op of
        Inl e \<Rightarrow> Inl e
      | Inr op \<Rightarrow>
          if kw = ''in:*'' \<or> kw = tag_quote E ''in:*'' then
            (if op = IntSet_Sub then
               (case iter_tags E s tag_namespace of
                  Inl e \<Rightarrow> Inl e
                | Inr tags \<Rightarrow>
                    (case index_tags E s op (map fst tags) of
                       Inl e \<Rightarrow> Inl e
                     | Inr l \<Rightarrow> Inr (l, s)))
             else Inr ([], s))
          else
            (case ns_kw kw tag_namespace of
               Inl e \<Rightarrow> Inl e
             | Inr kw \<Rightarrow>
                 (case keyword_index E s kw None (op = IntSet_Or) of
                    Inl e \<Rightarrow> Inl e
                  | Inr (idx, s1) \<Rightarrow> Inr ([(op, kw, idx)], s1))))"

text \<open>The loop \<open>for op, kw in op_kw_list: op_idx_kw_list.extend(_op_kwi(op, kw))\<close>.\<close>

fun expand_ops ::
  "env \<Rightarrow> engine \<Rightarrow> string \<Rightarrow> (opspec \<times> string) list
     \<Rightarrow> error + ((setop \<times> string \<times> nat) list \<times> engine)" where
  "expand_ops E s tag_namespace [] = Inr ([], s)"
| "expand_ops E s tag_namespace ((op, kw) # rest) =
     (case op_kwi E s tag_namespace op kw of
        Inl e \<Rightarrow> Inl e
      | Inr (l, s1) \<Rightarrow>
          (case expand_ops E s1 tag_namespace rest of
             Inl e \<Rightarrow> Inl e
           | Inr (l', s2) \<Rightarrow> Inr (l @ l', s2)))"

text \<open>\<open>cdata[k] = v\<close> and \<open>del cdata[k]\<close> on an insertion-ordered dict.\<close>

fun dict_set :: "(string \<times> string) list \<Rightarrow> string \<Rightarrow> string \<Rightarrow> (string \<times> string) list" where
  "dict_set [] k v = [(k, v)]"
| "dict_set ((k', v') # d) k v = (if k' = k then (k, v) # d else (k', v') # dict_set d k v)"

definition dict_del :: "(string \<times> string) list \<Rightarrow> string \<Rightarrow> (string \<times> string) list" where
  "dict_del d k = filter (\<lambda>kv. fst kv \<noteq> k) d"

text \<open>
  The accumulators of \<open>mutate\<close>: \<open>cset_all\<close>, \<open>changes\<close>, \<open>mutations\<close>.
\<close>

type_synonym mutate_acc = "intset \<times> (string \<times> nat \<times> string \<times> string) list \<times> nat"

text \<open>The body of the loop \<open>for op, kw, idx in op_idx_kw_list\<close>.\<close>

definition mutate_step ::
  "env \<Rightarrow> scope \<Rightarrow> engine \<times> mutate_acc \<Rightarrow> setop \<times> string \<times> nat
     \<Rightarrow> error + (engine \<times> mutate_acc)" where
  "mutate_step E mset st okw =
     (case (st, okw) of ((s, cset_all, changes, mutations), (op, kw, idx)) \<Rightarrow>
      case bucket_at s idx of
        Inl e \<Rightarrow> Inl e
      | Inr plb \<Rightarrow>
      (case get_plb (dumb_decode E) plb kw of
         Inl e \<Rightarrow> Inl e
       | Inr (comment, iset) \<Rightarrow>
       (case mset of
          Patch d \<Rightarrow>
            (let cdata = (if comment \<noteq> [] then from_json E comment else []);
                 cdata = (if op = IntSet_Or then fold (\<lambda>(k, v) c. dict_set c k v) d cdata
                          else fold (\<lambda>(k, v) c. dict_del c k) d cdata)
             in case set_comment_plb (dumb_encode_bin E) (dumb_decode E) plb kw
                       (to_json E cdata) of
                  Inl e \<Rightarrow> Inl e
                | Inr plb \<Rightarrow>
                    Inr (s\<lparr>records := (records s)(idx \<mapsto> RBytes (blob plb))\<rparr>,
                         cset_all, changes, mutations))
        | Ids m \<Rightarrow>
            (let iset = (case iset of None \<Rightarrow> {||} | Some x \<Rightarrow> x) in
             case apply_setop op [iset, m] of
               Inl e \<Rightarrow> Inl e
             | Inr oset \<Rightarrow>
                 if iset \<noteq> oset then
                   (case set_plb (dumb_encode_bin E) (dumb_decode E) plb kw (Some oset) []
                           None of
                      Inl e \<Rightarrow> Inl e
                    | Inr plb \<Rightarrow>
                        (let cset = ((iset |-| oset) |\<union>| (oset |-| iset)) |\<inter>| m in
                         Inr (s\<lparr>records := (records s)(idx \<mapsto> RBytes (blob plb))\<rparr>,
                              cset_all |\<union>| cset,
                              changes @ [(kw, idx, dumb_encode_asc E (iset |\<inter>| m),
                                          dumb_encode_asc E (oset |\<inter>| m))],
                              mutations + 1)))
                 else Inr (s, cset_all, changes, mutations)))))"

fun mutate_steps ::
  "env \<Rightarrow> scope \<Rightarrow> engine \<times> mutate_acc \<Rightarrow> (setop \<times> string \<times> nat) list
     \<Rightarrow> error + (engine \<times> mutate_acc)" where
  "mutate_steps E mset st [] = Inr st"
| "mutate_steps E mset st (okw # rest) =
     (case mutate_step E mset st okw of
        Inl e \<Rightarrow> Inl e
      | Inr st1 \<Rightarrow> mutate_steps E mset st1 rest)"

text \<open>The loop \<open>for mset, op_kw_list in mlist\<close>.\<close>

fun mutate_loop ::
  "env \<Rightarrow> string \<Rightarrow> engine \<times> mutate_acc \<Rightarrow> (scope \<times> (opspec \<times> string) list) list
     \<Rightarrow> error + (engine \<times> mutate_acc)" where
  "mutate_loop E tag_namespace st [] = Inr st"
| "mutate_loop E tag_namespace (s, acc) ((mset, op_kw_list) # mlist) =
     (case expand_ops E s tag_namespace op_kw_list of
        Inl e \<Rightarrow> Inl e
      | Inr (op_idx_kw_list, s1) \<Rightarrow>
          (case mutate_steps E mset (s1, acc) op_idx_kw_list of
             Inl e \<Rightarrow> Inl e
           | Inr st1 \<Rightarrow> mutate_loop E tag_namespace st1 mlist))"

text \<open>
  The dict \<open>mutate\<close> returns: \<open>mutations\<close>, \<open>changed\<close>, and \<open>history\<close> (when history
  was recorded) or \<open>changes\<close>.
\<close>

record mutate_result =
  mutations :: nat
  changed :: intset
  history_rec :: "history_entry option"
  changes :: "(string \<times> nat \<times> string \<times> string) list option"

text \<open>
  \<open>mutate(mlist, record_history, tag_namespace)\<close>.  \<open>rnd\<close> is the value of
  \<open>random.randint(0, 0xffffffffff)\<close> and \<open>now\<close> the clock reading.  A history
  position that is not a record number makes the write fail.
\<close>

definition mutate ::
  "env \<Rightarrow> engine \<Rightarrow> (scope \<times> (opspec \<times> string) list) list \<Rightarrow> string option \<Rightarrow> string
     \<Rightarrow> nat \<Rightarrow> int \<Rightarrow> error + (mutate_result \<times> engine)" where
  "mutate E s mlist record_history tag_namespace rnd now =
     (case mutate_loop E tag_namespace (s, {||}, [], 0) mlist of
        Inl e \<Rightarrow> Inl e
      | Inr (s1, cset_all, chs, n) \<Rightarrow>
          (case record_history of
             Some (c # cs) \<Rightarrow>
               (let ((slot, version), s2) = allocate_history_slot s1 in
                if slot < 0 then Inl IndexError
                else
                  (let entry = \<lparr>h_id = (nat slot, rnd), h_ts = now, h_comment = c # cs,
                                 h_version = version, h_changes = chs\<rparr>;
                       s3 = s2\<lparr>records := (records s2)(nat slot \<mapsto> RHistory entry)\<rparr>
                   in case touch E s3 (Some cset_all) (Some version) now of
                        Inl e \<Rightarrow> Inl e
                      | Inr (_, s4) \<Rightarrow>
                          Inr (\<lparr>mutations = n, changed = cset_all,
                                 history_rec = Some entry, changes = None\<rparr>, s4)))
           | _ \<Rightarrow>
               (case touch E s1 (Some cset_all) None now of
                  Inl e \<Rightarrow> Inl e
                | Inr (_, s4) \<Rightarrow>
                    Inr (\<lparr>mutations = n, changed = cset_all,
                           history_rec = None, changes = Some chs\<rparr>, s4))))"

text \<open>The loop of \<open>historic_mutations\<close> over the changes.\<close>

fun historic_loop ::
  "env \<Rightarrow> bool \<Rightarrow> (string \<times> nat \<times> string \<times> string) list
     \<Rightarrow> error + (scope \<times> (opspec \<times> string) list) list" where
  "historic_loop E undo [] = Inr []"
| "historic_loop E undo ((kw, idx, enc_iset, enc_oset) # rest) =
     (case (dumb_decode E enc_iset, dumb_decode E enc_oset) of
        (Some iset0, Some oset0) \<Rightarrow>
          (let iset = (if undo then oset0 else iset0);
               oset = (if undo then iset0 else oset0);
               add_bits = oset |-| iset;
               sub_bits = iset |-| oset
           in case historic_loop E undo rest of
                Inl e \<Rightarrow> Inl e
              | Inr ms \<Rightarrow>
                  Inr ((if add_bits \<noteq> {||} then [(Ids add_bits, [(OpStr ''+'', kw)])] else [])
                     @ (if sub_bits \<noteq> {||} then [(Ids sub_bits, [(OpStr ''-'', kw)])] else [])
                     @ ms))
      | _ \<Rightarrow> Inl TypeError)"

definition historic_mutations ::
  "env \<Rightarrow> engine \<Rightarrow> nat \<times> nat \<Rightarrow> bool \<Rightarrow> bool
     \<Rightarrow> error + (scope \<times> (opspec \<times> string) list) list" where
  "historic_mutations E s hist_id undo redo =
     (if (undo \<and> redo) \<or> \<not> (undo \<or> redo) then Inl ValueError
      else case records s (fst hist_id) of
        None \<Rightarrow> Inl KeyError
      | Some (RHistory h) \<Rightarrow>
          if h_id h \<noteq> hist_id then Inl KeyError
          else historic_loop E undo (if undo then rev (h_changes h) else h_changes h)
      | Some (RStatus _) \<Rightarrow> Inl KeyError
      | Some (RBytes _) \<Rightarrow> Inl TypeError)"


section \<open>Queries\<close>

text \<open>
  Python's \<open>int(s)\<close> on ASCII input: surrounding whitespace is stripped, one sign is
  allowed, and single underscores may separate digits; anything else is a
  \<open>ValueError\<close>.  (Digits and spaces outside ASCII are not recognised here.)
\<close>

definition is_space :: "char \<Rightarrow> bool" where
  "is_space c = ((of_char c :: nat) \<in> {9, 10, 11, 12, 13, 28, 29, 30, 31, 32})"

definition is_digit :: "char \<Rightarrow> bool" where
  "is_digit c = (48 \<le> (of_char c :: nat) \<and> (of_char c :: nat) \<le> 57)"

definition digit_val :: "char \<Rightarrow> nat" where
  "digit_val c = of_char c - 48"

fun digits_loop :: "string \<Rightarrow> nat \<Rightarrow> nat option" where
  "digits_loop [] acc = Some acc"
| "digits_loop [c] acc = (if is_digit c then Some (10 * acc + digit_val c) else None)"
| "digits_loop (c # d # cs) acc =
     (if is_digit c then digits_loop (d # cs) (10 * acc + digit_val c)
      else if c = CHR ''_'' \<and> is_digit d then digits_loop cs (10 * acc + digit_val d)
      else None)"

definition parse_nat :: "string \<Rightarrow> nat option" where
  "parse_nat s = (case s of [] \<Rightarrow> None
                  | c # cs \<Rightarrow> if is_digit c then digits_loop cs (digit_val c) else None)"

definition strip :: "string \<Rightarrow> string" where
  "strip s = rev (dropWhile is_space (rev (dropWhile is_space s)))"

definition py_int :: "string \<Rightarrow> error + int" where
  "py_int s =
     (case strip s of
        [] \<Rightarrow> Inl ValueError
      | c # cs \<Rightarrow>
          if c = CHR ''-'' then
            (case parse_nat cs of None \<Rightarrow> Inl ValueError | Some n \<Rightarrow> Inr (- int n))
          else if c = CHR ''+'' then
            (case parse_nat cs of None \<Rightarrow> Inl ValueError | Some n \<Rightarrow> Inr (int n))
          else
            (case parse_nat (c # cs) of None \<Rightarrow> Inl ValueError | Some n \<Rightarrow> Inr (int n)))"

text \<open>\<open>s.split(',')\<close>; \<open>cur\<close> is the field being read, reversed.\<close>

fun split_comma :: "string \<Rightarrow> string \<Rightarrow> string list" where
  "split_comma cur [] = [rev cur]"
| "split_comma cur (c # cs) =
     (if c = CHR '','' then rev cur # split_comma [] cs else split_comma (c # cur) cs)"

text \<open>\<open>s.split('..')\<close>\<close>

fun split_dots :: "string \<Rightarrow> string \<Rightarrow> string list" where
  "split_dots cur [] = [rev cur]"
| "split_dots cur [c] = [rev (c # cur)]"
| "split_dots cur (c # d # cs) =
     (if c = CHR ''.'' \<and> d = CHR ''.'' then rev cur # split_dots [] cs
      else split_dots (c # cur) (d # cs))"

text \<open>
  One element of the comma-separated list in \<open>_id_list\<close>: the ids it contributes.
  \<open>b, e = _id.split('..')\<close> raises \<open>ValueError\<close> unless there are two parts.
\<close>

definition id_elem :: "int \<Rightarrow> string \<Rightarrow> error + int list" where
  "id_elem mx elem =
     (if contains_str elem ''..'' then
        (case split_dots [] elem of
           [b, e] \<Rightarrow>
             (case py_int b of
                Inl err \<Rightarrow> Inl err
              | Inr bi \<Rightarrow>
                  (case py_int e of
                     Inl err \<Rightarrow> Inl err
                   | Inr ei \<Rightarrow> Inr [bi..min mx (ei + 1) - 1]))
         | _ \<Rightarrow> Inl ValueError)
      else (case py_int elem of Inl err \<Rightarrow> Inl err | Inr i \<Rightarrow> Inr [i]))"

fun id_elems :: "int \<Rightarrow> string list \<Rightarrow> error + int list" where
  "id_elems mx [] = Inr []"
| "id_elems mx (elem # elems) =
     (case id_elem mx elem of
        Inl err \<Rightarrow> Inl err
      | Inr l \<Rightarrow>
          (case id_elems mx elems of Inl err \<Rightarrow> Inl err | Inr ls \<Rightarrow> Inr (l @ ls)))"

text \<open>
  \<open>_id_list\<close>: \<open>ids[0]\<close> raises \<open>IndexError\<close> on the empty string; an encoded IntSet is
  decoded (iterating \<open>None\<close> is a \<open>TypeError\<close>); a \<open>ValueError\<close> while parsing gives
  the empty list.
\<close>

definition id_list :: "env \<Rightarrow> engine \<Rightarrow> string \<Rightarrow> error + int list" where
  "id_list E s ids =
     (case ids of
        [] \<Rightarrow> Inl IndexError
      | c # _ \<Rightarrow>
          (case (if c \<in> {CHR ''I'', CHR ''S'', CHR ''T'', CHR ''Z''} then
                   (case dumb_decode E ids of
                      None \<Rightarrow> Inl TypeError
                    | Some x \<Rightarrow> Inr (map int (sorted_list_of_fset x)))
                 else
                   (case id_elems (maxint s) (split_comma [] ids) of
                      Inl ValueError \<Rightarrow> Inr []
                    | r \<Rightarrow> r)) of
             Inl e \<Rightarrow> Inl e
           | Inr l \<Rightarrow> Inr (filter (\<lambda>i. 0 \<le> i \<and> i \<le> maxint s) l)))"

text \<open>\<open>IntSet(list)\<close> of non-negative integers\<close>

definition IntSet_of :: "int list \<Rightarrow> intset" where
  "IntSet_of l = fset_of_list (map nat l)"

text \<open>\<open>term.split(':', 1)[1]\<close> for a term that contains a colon\<close>

definition after_colon :: "string \<Rightarrow> string" where
  "after_colon t = drop 1 (dropWhile (\<lambda>c. c \<noteq> CHR '':'') t)"

text \<open>The symbolic \<open>IntSet.All\<close> in \<open>_search\<close>.\<close>

definition search_all :: "env \<Rightarrow> engine \<Rightarrow> string \<Rightarrow> error + intset" where
  "search_all E s tag_ns =
     (if tag_ns \<noteq> [] then getitem E s (''in:@'' @ tag_ns)
      else Inr (IntSet_All_upto (maxint s)))"

text \<open>The string case of \<open>_search\<close>.\<close>

definition search_str :: "env \<Rightarrow> engine \<Rightarrow> string \<Rightarrow> string \<Rightarrow> error + intset" where
  "search_str E s tag_ns t =
     (let t = (if take 4 t = ''tag:'' then ''in:'' @ drop 4 t else t) in
      if tag_ns \<noteq> [] \<and> take 3 t = ''in:'' then getitem E s (t @ ''@'' @ tag_ns)
      else if t = ''in:'' \<or> t = ''all:mail'' \<or> t = ''*'' then search_all E s tag_ns
      else if take 3 t = ''id:'' \<or> take 4 t = ''mid:'' then
        (case id_list E s (after_colon t) of
           Inl e \<Rightarrow> Inl e
         | Inr l \<Rightarrow> Inr (IntSet_of l))
      else getitem E s t)"

text \<open>
  \<open>_search\<close>.  A tuple applies its first element to the results of the others, which
  are evaluated first and in order; a first element that is not callable is a
  \<open>TypeError\<close>.
\<close>

fun search_term :: "env \<Rightarrow> engine \<Rightarrow> string \<Rightarrow> qterm \<Rightarrow> error + intset"
  and search_terms :: "env \<Rightarrow> engine \<Rightarrow> string \<Rightarrow> qterm list \<Rightarrow> error + intset list" where
  "search_term E s tag_ns (TTuple []) = Inr {||}"
| "search_term E s tag_ns (TTuple [x]) = Inr {||}"
| "search_term E s tag_ns (TTuple (f # a # as)) =
     (case search_terms E s tag_ns (a # as) of
        Inl e \<Rightarrow> Inl e
      | Inr rs \<Rightarrow> (case f of TFun op \<Rightarrow> apply_setop op rs | _ \<Rightarrow> Inl TypeError))"
| "search_term E s tag_ns (TStr t) = search_str E s tag_ns t"
| "search_term E s tag_ns (TList ts) =
     (case search_terms E s tag_ns ts of
        Inl e \<Rightarrow> Inl e
      | Inr rs \<Rightarrow> apply_setop IntSet_And rs)"
| "search_term E s tag_ns (TFun op) =
     (if op = IntSet_All then search_all E s tag_ns else Inl ValueError)"
| "search_terms E s tag_ns [] = Inr []"
| "search_terms E s tag_ns (t # ts) =
     (case search_term E s tag_ns t of
        Inl e \<Rightarrow> Inl e
      | Inr r \<Rightarrow>
          (case search_terms E s tag_ns ts of
             Inl e \<Rightarrow> Inl e
           | Inr rs \<Rightarrow> Inr (r # rs)))"

text \<open>
  \<open>tag not in terms\<close> is a substring test when \<open>terms\<close> is the query text and an
  element test when it is a tuple or list; a class method is not iterable.
\<close>

definition tag_in_terms :: "string \<Rightarrow> qterm \<Rightarrow> error + bool" where
  "tag_in_terms tag terms =
     (case terms of
        TStr t \<Rightarrow> Inr (contains_str t tag)
      | TTuple ts \<Rightarrow> Inr (TStr tag \<in> set ts)
      | TList ts \<Rightarrow> Inr (TStr tag \<in> set ts)
      | TFun _ \<Rightarrow> Inl TypeError)"

text \<open>\<open>masking = [tag for tag in mask_tags if tag not in terms]\<close>\<close>

fun masking_of :: "qterm \<Rightarrow> string list \<Rightarrow> error + string list" where
  "masking_of terms [] = Inr []"
| "masking_of terms (tag # tags) =
     (case tag_in_terms tag terms of
        Inl e \<Rightarrow> Inl e
      | Inr present \<Rightarrow>
          (case masking_of terms tags of
             Inl e \<Rightarrow> Inl e
           | Inr m \<Rightarrow> Inr (if present then m else tag # m)))"

text \<open>Python truthiness of a query value (\<open>if more_terms:\<close>).\<close>

definition truthy_term :: "qterm \<Rightarrow> bool" where
  "truthy_term t = (case t of TStr x \<Rightarrow> x \<noteq> [] | TTuple ts \<Rightarrow> ts \<noteq> []
                    | TList ts \<Rightarrow> ts \<noteq> [] | TFun _ \<Rightarrow> True)"

text \<open>A string is parsed (\<open>self.parse_terms(terms, self.magic_map)\<close>), a tree is taken as it is.\<close>

definition parsed :: "env \<Rightarrow> qterm \<Rightarrow> qterm" where
  "parsed E terms = (case terms of TStr t \<Rightarrow> parse_terms E t | _ \<Rightarrow> terms)"

text \<open>The op tree \<open>search\<close> evaluates.\<close>

definition search_ops ::
  "env \<Rightarrow> qterm \<Rightarrow> string \<Rightarrow> string list option \<Rightarrow> qterm option \<Rightarrow> error + qterm" where
  "search_ops E terms tag_namespace mask_tags more_terms =
     (let ops = parsed E terms;
          ops = (case more_terms of
                   None \<Rightarrow> ops
                 | Some m \<Rightarrow>
                     if truthy_term m then TTuple [TFun IntSet_And, ops, parsed E m] else ops);
          ops = (if tag_namespace \<noteq> [] then TTuple [TFun IntSet_And, TFun IntSet_All, ops]
                 else ops)
      in case mask_tags of
           None \<Rightarrow> Inr ops
         | Some [] \<Rightarrow> Inr ops
         | Some (tag # tags) \<Rightarrow>
             (case masking_of terms (tag # tags) of
                Inl e \<Rightarrow> Inl e
              | Inr masking \<Rightarrow>
                  if masking \<noteq> [] \<and> length masking = length (tag # tags)
                  then Inr (TTuple ([TFun IntSet_Sub, ops] @ map TStr masking))
                  else Inr ops))"

text \<open>
  \<open>search\<close> returns the pair \<open>(ops, rv)\<close>; with \<open>explain\<close> the source returns it
  together with the namespace, without it only \<open>rv\<close>.
\<close>

definition search ::
  "env \<Rightarrow> engine \<Rightarrow> qterm \<Rightarrow> string \<Rightarrow> bool \<Rightarrow> string list option \<Rightarrow> qterm option
     \<Rightarrow> error + (qterm \<times> intset)" where
  "search E s terms tag_namespace mask_deleted mask_tags more_terms =
     (case search_ops E terms tag_namespace mask_tags more_terms of
        Inl e \<Rightarrow> Inl e
      | Inr ops \<Rightarrow>
          (case search_term E s tag_namespace ops of
             Inl e \<Rightarrow> Inl e
           | Inr rv \<Rightarrow>
               Inr (ops, if mask_deleted then rv |-| deleted_ids s else rv)))"


section \<open>The text of an id list\<close>

text \<open>
  The lists the \<open>id:\<close> and \<open>mid:\<close> terms are written with: integers and inclusive
  ranges \<open>a..b\<close>, separated by commas.  \<open>show_int\<close> is Python's \<open>str\<close> of an integer;
  \<open>id_item_range\<close> is what \<open>_id_list\<close> makes of one item, a range being cut off below
  \<open>maxint\<close> by \<open>range(b, min(self.maxint, e + 1))\<close>.
\<close>

datatype id_item = Single int | Range int int

definition digit_char :: "nat \<Rightarrow> char" where
  "digit_char d = ''0123456789'' ! d"

fun show_nat :: "nat \<Rightarrow> string" where
  "show_nat n = (if n < 10 then [digit_char n] else show_nat (n div 10) @ [digit_char (n mod 10)])"

declare show_nat.simps [simp del]

definition show_int :: "int \<Rightarrow> string" where
  "show_int i = (if i < 0 then CHR ''-'' # show_nat (nat (- i)) else show_nat (nat i))"

definition render_item :: "id_item \<Rightarrow> string" where
  "render_item it = (case it of Single i \<Rightarrow> show_int i
                     | Range a b \<Rightarrow> show_int a @ ''..'' @ show_int b)"

fun render_ids :: "id_item list \<Rightarrow> string" where
  "render_ids [] = []"
| "render_ids [it] = render_item it"
| "render_ids (it # it' # its) = render_item it @ CHR '','' # render_ids (it' # its)"

definition id_item_range :: "int \<Rightarrow> id_item \<Rightarrow> int list" where
  "id_item_range mx it = (case it of Single i \<Rightarrow> [i]
                          | Range a b \<Rightarrow> [a..min mx (b + 1) - 1])"

text \<open>The characters of a decimal numeral: digits, none of which is a separator, a sign,
  white space or the first byte of an encoded IntSet.\<close>

definition plain :: "char \<Rightarrow> bool" where
  "plain c = (is_digit c \<and> c \<noteq> CHR '','' \<and> c \<noteq> CHR ''.'' \<and> c \<noteq> CHR ''-'' \<and> c \<noteq> CHR ''+''
      \<and> \<not> is_space c \<and> c \<notin> {CHR ''I'', CHR ''S'', CHR ''T'', CHR ''Z''})"

text \<open>The ids a list stands for: what \<open>_id_list\<close> keeps of the expanded items.\<close>

definition listed_ids :: "int \<Rightarrow> id_item list \<Rightarrow> intset" where
  "listed_ids mx its =
     IntSet_of (filter (\<lambda>i. 0 \<le> i \<and> i \<le> mx) (concat (map (id_item_range mx) its)))"

section \<open>What the bucket operations leave alone\<close>

text \<open>
  The fields of the engine that only \<open>_allocate_history_slot\<close> and \<open>touch\<close> (the
  history) or nothing at all (the region bounds, the bucket count, the deleted set)
  may change.
\<close>

definition frame :: "engine \<Rightarrow> engine \<Rightarrow> bool" where
  "frame s s' = (history s' = history s \<and> l1_begin s' = l1_begin s
     \<and> l2_begin s' = l2_begin s \<and> l2_buckets s' = l2_buckets s
     \<and> deleted_ids s' = deleted_ids s)"

section \<open>A reference instance of the collaborators\<close>

text \<open>
  One concrete instance of \<open>env\<close>, used to run the model on concrete inputs: a codec
  that writes an IntSet as its ascending ids in unary, a key hash whose first four
  bytes come from the keyword, quoting that changes nothing, one \<open>version:\<close> and one
  \<open>vdate:\<close> keyword, and a parser that makes the whole text one term.
\<close>

fun ids_bytes :: "nat list \<Rightarrow> bytes" where
  "ids_bytes [] = []"
| "ids_bytes (n # ns) = replicate n (CHR ''1'') @ CHR '','' # ids_bytes ns"

fun bytes_ids :: "bytes \<Rightarrow> nat \<Rightarrow> nat list" where
  "bytes_ids [] acc = []"
| "bytes_ids (c # cs) acc =
     (if c = CHR '','' then acc # bytes_ids cs 0 else bytes_ids cs (acc + 1))"

definition demo_encode :: "intset option \<Rightarrow> bytes" where
  "demo_encode v = (case v of None \<Rightarrow> ''N''
                    | Some x \<Rightarrow> CHR ''I'' # ids_bytes (sorted_list_of_fset x))"

definition demo_decode :: "bytes \<Rightarrow> intset option" where
  "demo_decode b = (case b of [] \<Rightarrow> None
                    | c # cs \<Rightarrow> if c = CHR ''I'' then Some (fset_of_list (bytes_ids cs 0))
                               else None)"

definition demo_hash :: "string \<Rightarrow> bytes" where
  "demo_hash kw = take 4 (kw @ ''0000'') @ kw"

definition demo_env :: env where
  "demo_env = \<lparr>
     dumb_decode = demo_decode,
     dumb_encode_bin = demo_encode,
     dumb_encode_asc = (\<lambda>x. demo_encode (Some x)),
     from_json = (\<lambda>b. []),
     to_json = (\<lambda>d. ''{}''),
     hash_key = demo_hash,
     tag_quote = (\<lambda>t. t),
     tag_unquote = (\<lambda>t. Inr t),
     version_to_keywords = (\<lambda>v. [''version:'' @ replicate (nat v) (CHR ''i'')]),
     ts_to_keywords = (\<lambda>t. [''vdate:now'']),
     parse_terms = TStr\<rparr>"


text \<open>
  A freshly opened engine as \<open>__init__\<close> leaves it (history \<open>{'ver': 1}\<close>, record 0
  deleted), here with \<open>l1_keywords = 3\<close> and \<open>l2_buckets = 2\<close>.
\<close>

definition demo_engine :: engine where
  "demo_engine = \<lparr>records = Map.empty, keys = Map.empty, history = [''ver'' \<mapsto> 1],
     l1_begin = 2001, l2_begin = 2004, l2_buckets = 2, maxint = 1,
     deleted_ids = {|0|}, part_spaces_1 = {}\<rparr>"

text \<open>The reference engine after \<open>add_results([([10, 11, 12, 20], ['x'])])\<close>.\<close>

definition ids_engine :: engine where
  "ids_engine = \<lparr>records =
       [1000 \<mapsto> RStatus [''ver'' \<mapsto> 2],
        2004 \<mapsto> RBytes (serialize
           [(''vdate:now'', [], demo_encode (Some {|10, 11, 12, 20|})),
            (''version:ii'', [], demo_encode (Some {|10, 11, 12, 20|})),
            (''x'', [], demo_encode (Some {|10, 11, 12, 20|}))])],
     keys = Map.empty, history = [''ver'' \<mapsto> 2],
     l1_begin = 2001, l2_begin = 2004, l2_buckets = 2, maxint = 21,
     deleted_ids = {|0|}, part_spaces_1 = {''x'', ''version:ii'', ''vdate:now''}\<rparr>"

text \<open>The reference engine after \<open>add_results([([3], ['in:spam', 'in:trash']), ([4], ['in:trash']),
  ([3, 4, 5], ['in:inbox'])], touch=False)\<close>.\<close>

definition mask_engine :: engine where
  "mask_engine = \<lparr>records =
       [2001 \<mapsto> RBytes (serialize [(''in:spam'', [], demo_encode (Some {|3|}))]),
        2002 \<mapsto> RBytes (serialize [(''in:trash'', [], demo_encode (Some {|3, 4|}))]),
        2003 \<mapsto> RBytes (serialize [(''in:inbox'', [], demo_encode (Some {|3, 4, 5|}))])],
     keys = [demo_hash ''in:spam'' \<mapsto> (0, 2001), demo_hash ''in:trash'' \<mapsto> (0, 2002),
             demo_hash ''in:inbox'' \<mapsto> (0, 2003)],
     history = [''ver'' \<mapsto> 1],
     l1_begin = 2001, l2_begin = 2004, l2_buckets = 2, maxint = 6,
     deleted_ids = {|0|}, part_spaces_1 = {''in:spam'', ''in:trash'', ''in:inbox''}\<rparr>"

section \<open>Reading and writing the byte layout\<close>

lemma length_nat_le: "length (nat_le k n) = k"
  by (induction k arbitrary: n) auto

lemma le_nat_nat_le: "n < 256 ^ k \<Longrightarrow> le_nat (nat_le k n) = n"
proof (induction k arbitrary: n)
  case 0 then show ?case by simp
next
  case (Suc k)
  have "n div 256 < 256 ^ k" using Suc.prems by (simp add: less_mult_imp_div_less)
  then have "le_nat (nat_le k (n div 256)) = n div 256" by (rule Suc.IH)
  then show ?case by simp
qed

lemma length_header_bytes: "length (header_bytes t) = 8"
  by (cases t) (simp add: header_bytes_def length_nat_le)

lemma unpack_header:
  assumes "fits (kw, c, ib)"
  shows "unpack_HHI (header_bytes (kw, c, ib)) = Inr (length kw, length c, length ib)"
proof -
  have 1: "le_nat (nat_le 2 (length kw)) = length kw" using assms by (intro le_nat_nat_le) (simp add: fits_def)
  have 2: "le_nat (nat_le 2 (length c)) = length c" using assms by (intro le_nat_nat_le) (simp add: fits_def)
  have 3: "le_nat (nat_le 4 (length ib)) = length ib" using assms by (intro le_nat_nat_le) (simp add: fits_def)
  show ?thesis
    using 1 2 3 by (simp add: unpack_HHI_def slice_def length_nat_le header_bytes_def)
qed

lemma pack_header:
  "pack_HHI (length kw) (length c) (length ib) = Inr h \<Longrightarrow>
     fits (kw, c, ib) \<and> h = header_bytes (kw, c, ib)"
  by (auto simp: pack_HHI_def fits_def header_bytes_def split: if_splits)

lemma serialize_Nil: "serialize [] = []"
  by (simp add: serialize_def)

lemma serialize_Cons: "serialize (t # ts) = triple_bytes t @ serialize ts"
  by (simp add: serialize_def)

lemma serialize_append: "serialize (ts @ us) = serialize ts @ serialize us"
  by (simp add: serialize_def)

lemma items_step:
  assumes "length h = 8" "unpack_HHI h = Inr (length kw, length c, length ib)"
  shows "items (h @ kw @ c @ ib @ rest) =
     (case items rest of Inl e \<Rightarrow> Inl e | Inr r \<Rightarrow> Inr ((kw, c, ib) # r))"
proof -
  have ne: "h \<noteq> []" using assms(1) by auto
  show ?thesis
    apply (subst items.simps)
    using assms ne
    apply (simp add: slice_def Let_def split: sum.splits)
    done
qed

lemma items_triple:
  assumes "fits t"
  shows "items (triple_bytes t @ rest) =
     (case items rest of Inl e \<Rightarrow> Inl e | Inr r \<Rightarrow> Inr (t # r))"
proof -
  obtain kw c ib where t: "t = (kw, c, ib)" by (cases t)
  have "fits (kw, c, ib)" using assms by (simp add: t)
  from items_step [OF length_header_bytes unpack_header [OF this], of rest]
  show ?thesis unfolding t triple_bytes_def by simp
qed

lemma items_concat:
  "list_all fits ts \<Longrightarrow> items (serialize ts) = Inr ts"
proof (induction ts)
  case Nil
  show ?case by (simp add: items.simps serialize_Nil)
next
  case (Cons t ts)
  then show ?case by (simp add: items_triple serialize_Cons)
qed

lemma find_step_ne:
  assumes "length h = 8" "unpack_HHI h = Inr (length kw, length c, length ib)" "kw \<noteq> k"
  shows "find_iset_loop dec k (h @ kw @ c @ ib @ rest) chunks bc iset =
         find_iset_loop dec k rest (chunks @ [h @ kw @ c @ ib]) bc iset"
proof -
  have ne: "h \<noteq> []" using assms(1) by auto
  show ?thesis
    apply (subst find_iset_loop.simps)
    using assms ne
    apply (simp add: slice_def Let_def)
    done
qed

lemma find_step_eq:
  assumes "length h = 8" "unpack_HHI h = Inr (length kw, length c, length ib)"
  shows "find_iset_loop dec kw (h @ kw @ c @ ib @ rest) chunks bc iset =
         find_iset_loop dec kw rest chunks c (dec ib)"
proof -
  have ne: "h \<noteq> []" using assms(1) by auto
  show ?thesis
    apply (subst find_iset_loop.simps)
    using assms ne
    apply (simp add: slice_def Let_def)
    done
qed

lemma find_concat:
  "list_all fits ts \<Longrightarrow>
   find_iset_loop dec k (serialize ts) chunks bc iset =
     Inr (chunks @ map triple_bytes (filter (\<lambda>t. fst t \<noteq> k) ts),
          last_match dec k ts (bc, iset))"
proof (induction ts arbitrary: chunks bc iset)
  case Nil
  then show ?case by (simp add: find_iset_loop.simps serialize_Nil)
next
  case (Cons t ts)
  obtain kw c ib where t: "t = (kw, c, ib)" by (cases t)
  have f: "fits (kw, c, ib)" and fs: "list_all fits ts" using Cons.prems by (simp_all add: t)
  have tb: "triple_bytes (kw, c, ib) = header_bytes (kw, c, ib) @ kw @ c @ ib"
    by (simp add: triple_bytes_def)
  have cc: "serialize (t # ts) =
      header_bytes (kw, c, ib) @ kw @ c @ ib @ serialize ts"
    by (simp add: tb t serialize_Cons)
  show ?case
  proof (cases "kw = k")
    case True
    show ?thesis
      using find_step_eq [OF length_header_bytes unpack_header [OF f], of dec "serialize ts" chunks bc iset]
        Cons.IH [OF fs] True
      unfolding cc by (simp add: t)
  next
    case False
    show ?thesis
      using find_step_ne [OF length_header_bytes unpack_header [OF f] False, of dec "serialize ts" chunks bc iset]
        Cons.IH [OF fs] False
      unfolding cc by (simp add: t tb)
  qed
qed

lemma wf_blobD:
  assumes "wf_blob b"
  obtains ts where "items b = Inr ts" "list_all fits ts" "b = serialize ts"
  using assms by (auto simp: wf_blob_def split: sum.splits)

lemma wf_blobI: "list_all fits ts \<Longrightarrow> wf_blob (serialize ts)"
  by (simp add: wf_blob_def items_concat)

lemma find_iset_wf:
  assumes "list_all fits ts" "blob b = serialize ts"
    and "last_match dec k ts ([], None) = (fc, fi)"
  shows "find_iset dec b k =
     Inr (map triple_bytes (filter (\<lambda>t. fst t \<noteq> k) ts), k, fc, fi)"
  using find_concat [OF assms(1), of dec k "[]" "[]" None] assms(3)
  by (simp add: find_iset_def assms(2))

lemma last_match_absent:
  "k \<notin> fst ` set ts \<Longrightarrow> last_match dec k ts acc = acc"
  by (induction ts arbitrary: acc) auto

lemma last_match_filter:
  "k' \<noteq> k \<Longrightarrow> last_match dec k' (filter (\<lambda>t. fst t \<noteq> k) ts) acc = last_match dec k' ts acc"
  by (induction ts arbitrary: acc) auto

lemma last_match_append:
  "last_match dec k (ts @ us) acc = last_match dec k us (last_match dec k ts acc)"
  by (induction ts arbitrary: acc) auto

lemma get_plb_triples:
  assumes "list_all fits ts" "blob b = serialize ts"
  shows "get_plb dec b k = Inr (last_match dec k ts ([], None))"
proof -
  obtain fc fv where lm: "last_match dec k ts ([], None) = (fc, fv)"
    by (cases "last_match dec k ts ([], None)")
  show ?thesis by (simp add: get_plb_def find_iset_wf [OF assms lm] lm)
qed

lemma pack_HHI_fits:
  "pack_HHI (length kw) (length c) (length ib) =
     (if fits (kw, c, ib) then Inr (header_bytes (kw, c, ib)) else Inl StructError)"
  by (simp add: pack_HHI_def fits_def header_bytes_def)

lemma set_plb_after_find:
  "(case Inr (map triple_bytes us, k, c0, io) of
      Inl e \<Rightarrow> Inl e
    | Inr (chunks, bkeyword, bcomment0, _) \<Rightarrow>
        (let bcomment = (if comment \<noteq> [] then comment else bcomment0);
             iset_blob = enc iset in
         if bcomment \<noteq> [] \<or> truthy iset
         then (case pack_HHI (length bkeyword) (length bcomment) (length iset_blob) of
                 Inl e \<Rightarrow> Inl e
               | Inr header \<Rightarrow>
                   Inr (b\<lparr>blob :=
                     concat (chunks @ [header, bkeyword, bcomment, iset_blob])\<rparr>))
         else Inr (b\<lparr>blob := concat chunks\<rparr>))) =
   (let c = (if comment \<noteq> [] then comment else c0) in
    if c \<noteq> [] \<or> truthy iset then
        (if fits (k, c, enc iset)
         then Inr (b\<lparr>blob := serialize (us @ [(k, c, enc iset)])\<rparr>)
         else Inl StructError)
    else Inr (b\<lparr>blob := serialize us\<rparr>))"
  by (simp add: Let_def pack_HHI_fits triple_bytes_def serialize_def)

lemma set_plb_triples:
  assumes "list_all fits ts" "blob b = serialize ts"
  shows "set_plb enc dec b k iset comment None =
     set_result enc b ts k iset
       (if comment \<noteq> [] then comment else fst (last_match dec k ts ([], None)))"
proof -
  obtain fc fv where lm: "last_match dec k ts ([], None) = (fc, fv)"
    by (cases "last_match dec k ts ([], None)")
  show ?thesis
    unfolding set_plb_def option.case find_iset_wf [OF assms lm] set_plb_after_find
    by (simp add: set_result_def lm Let_def)
qed

lemma set_plb_triples_given:
  assumes "list_all fits ts" "blob b = serialize ts"
  shows "set_plb enc dec b k iset comment
           (Some (k, map triple_bytes (filter (\<lambda>t. fst t \<noteq> k) ts))) =
     set_result enc b ts k iset
       (if comment \<noteq> [] then comment
        else if k \<noteq> [] \<and> filter (\<lambda>t. fst t \<noteq> k) ts \<noteq> [] then []
        else fst (last_match dec k ts ([], None)))"
proof -
  obtain fc fv where lm: "last_match dec k ts ([], None) = (fc, fv)"
    by (cases "last_match dec k ts ([], None)")
  show ?thesis
  proof (cases "k \<noteq> [] \<and> filter (\<lambda>t. fst t \<noteq> k) ts \<noteq> []")
    case True
    then have pre: "(case Some (k, map triple_bytes (filter (\<lambda>t. fst t \<noteq> k) ts)) of
              Some (bkeyword, chunks) \<Rightarrow>
                if bkeyword \<noteq> [] \<and> chunks \<noteq> [] then Inr (chunks, bkeyword, [], None)
                else find_iset dec b k
            | None \<Rightarrow> find_iset dec b k) = Inr (map triple_bytes (filter (\<lambda>t. fst t \<noteq> k) ts), k, [], None)"
      by simp
    show ?thesis
      unfolding set_plb_def pre set_plb_after_find using True
      by (simp add: set_result_def Let_def)
  next
    case False
    then have pre: "(case Some (k, map triple_bytes (filter (\<lambda>t. fst t \<noteq> k) ts)) of
              Some (bkeyword, chunks) \<Rightarrow>
                if bkeyword \<noteq> [] \<and> chunks \<noteq> [] then Inr (chunks, bkeyword, [], None)
                else find_iset dec b k
            | None \<Rightarrow> find_iset dec b k) = Inr (map triple_bytes (filter (\<lambda>t. fst t \<noteq> k) ts), k, fc, fv)"
      using find_iset_wf [OF assms lm] by auto
    show ?thesis
      unfolding set_plb_def pre set_plb_after_find using False
      by (auto simp add: set_result_def Let_def lm)
  qed
qed

lemma add_plb_triples:
  assumes "list_all fits ts" "blob b = serialize ts"
  shows "add_plb enc dec b k ints =
     (let (fc, fv) = last_match dec k ts ([], None);
          iset1 = (case fv of None \<Rightarrow> {||} | Some s \<Rightarrow> s);
          iset2 = (if ints \<noteq> {||} then iset1 |\<union>| ints else iset1);
          iset3 = (case deleted b of None \<Rightarrow> iset2 | Some d \<Rightarrow> iset2 |-| d)
      in set_result enc b ts k (Some iset3) fc)"
proof -
  obtain fc fv where lm: "last_match dec k ts ([], None) = (fc, fv)"
    by (cases "last_match dec k ts ([], None)")
  show ?thesis
    unfolding add_plb_def find_iset_wf [OF assms lm]
    by (simp add: Let_def set_plb_triples_given [OF assms] lm)
qed

lemma set_comment_plb_triples:
  assumes "list_all fits ts" "blob b = serialize ts"
  shows "set_comment_plb enc dec b k comment =
     set_result enc b ts k (snd (last_match dec k ts ([], None)))
       (if comment \<noteq> [] then comment
        else if k \<noteq> [] \<and> filter (\<lambda>t. fst t \<noteq> k) ts \<noteq> [] then []
        else fst (last_match dec k ts ([], None)))"
proof -
  obtain fc fv where lm: "last_match dec k ts ([], None) = (fc, fv)"
    by (cases "last_match dec k ts ([], None)")
  show ?thesis
    unfolding set_comment_plb_def find_iset_wf [OF assms lm]
    by (simp add: Let_def set_plb_triples_given [OF assms] lm)
qed

lemma remove_plb_triples:
  assumes "list_all fits ts" "blob b = serialize ts"
  shows "remove_plb dec b k =
     Inr (last_match dec k ts ([], None),
          if snd (last_match dec k ts ([], None)) \<noteq> None
          then b\<lparr>blob := serialize (filter (\<lambda>t. fst t \<noteq> k) ts)\<rparr> else b)"
proof -
  obtain fc fv where lm: "last_match dec k ts ([], None) = (fc, fv)"
    by (cases "last_match dec k ts ([], None)")
  show ?thesis
    unfolding remove_plb_def find_iset_wf [OF assms lm]
    by (simp add: lm serialize_def)
qed

section \<open>The bucket invariant\<close>

lemma bucket_invD:
  assumes "bucket_inv dec b"
  obtains ts where "items b = Inr ts" "list_all fits ts" "b = serialize ts"
    "distinct (map fst ts)" "list_all (stored_ok dec) ts"
  using assms by (auto simp: bucket_inv_def split: sum.splits)

lemma bucket_invI:
  "list_all fits ts \<Longrightarrow> distinct (map fst ts) \<Longrightarrow> list_all (stored_ok dec) ts \<Longrightarrow>
     bucket_inv dec (serialize ts)"
  by (simp add: bucket_inv_def items_concat)

lemma inv_after_filter_append:
  assumes "list_all fits ts" "distinct (map fst ts)" "list_all (stored_ok dec) ts"
    and "list_all fits new" "list_all (stored_ok dec) new" "new = [] \<or> (\<exists>c ib. new = [(k, c, ib)])"
  shows "bucket_inv dec (serialize (filter (\<lambda>t. fst t \<noteq> k) ts @ new))"
proof (rule bucket_invI)
  show "list_all fits (filter (\<lambda>t. fst t \<noteq> k) ts @ new)"
    using assms(1,4) by (auto simp: list_all_iff)
  show "distinct (map fst (filter (\<lambda>t. fst t \<noteq> k) ts @ new))"
    using assms(2,6) by (auto simp: distinct_map_filter)
  show "list_all (stored_ok dec) (filter (\<lambda>t. fst t \<noteq> k) ts @ new)"
    using assms(3,5) by (auto simp: list_all_iff)
qed

lemma set_result_inv:
  assumes codec: "dec (enc iset) = iset"
    and inv: "list_all fits ts" "distinct (map fst ts)" "list_all (stored_ok dec) ts"
    and res: "set_result enc b ts k iset c = Inr b'"
  shows "bucket_inv dec (blob b')"
proof (cases "c \<noteq> [] \<or> truthy iset")
  case True
  with res have f: "fits (k, c, enc iset)"
    and b': "blob b' = serialize (filter (\<lambda>t. fst t \<noteq> k) ts @ [(k, c, enc iset)])"
    by (auto simp: set_result_def split: if_splits)
  show ?thesis unfolding b'
    by (rule inv_after_filter_append [OF inv]) (use f True codec in \<open>auto simp: stored_ok_def\<close>)
next
  case False
  with res have b': "blob b' = serialize (filter (\<lambda>t. fst t \<noteq> k) ts @ [])"
    by (auto simp: set_result_def split: if_splits)
  show ?thesis unfolding b'
    by (rule inv_after_filter_append [OF inv]) auto
qed

text \<open>
  C3.  When the codec round-trips and the blob of a bucket satisfies the invariant (it is
  a sequence of triples, no keyword occurs twice, no triple has an empty comment and an
  empty IntSet), then the blob left by \<open>set\<close>, \<open>add\<close>, \<open>set_comment\<close> or \<open>remove\<close>
  satisfies the invariant again.
\<close>

theorem bucket_invariant_preserved:
  assumes codec: "\<And>v. dec (enc v) = v"
    and inv: "bucket_inv dec (blob b)"
  shows "(\<forall>b'. set_plb enc dec b kw iset comment None = Inr b' \<longrightarrow> bucket_inv dec (blob b'))
       \<and> (\<forall>b'. add_plb enc dec b kw ints = Inr b' \<longrightarrow> bucket_inv dec (blob b'))
       \<and> (\<forall>b'. set_comment_plb enc dec b kw comment = Inr b' \<longrightarrow> bucket_inv dec (blob b'))
       \<and> (\<forall>r b'. remove_plb dec b kw = Inr (r, b') \<longrightarrow> bucket_inv dec (blob b'))"
proof -
  from inv obtain ts where ts: "list_all fits ts" "blob b = serialize ts"
    and ok: "distinct (map fst ts)" "list_all (stored_ok dec) ts"
    by (rule bucket_invD) auto
  note si = set_result_inv [OF codec ts(1) ok]
  have 1: "bucket_inv dec (blob b')" if "set_plb enc dec b kw iset comment None = Inr b'" for b'
    using that unfolding set_plb_triples [OF ts] by (rule si)
  have 2: "bucket_inv dec (blob b')" if "add_plb enc dec b kw ints = Inr b'" for b'
    using that unfolding add_plb_triples [OF ts]
    by (auto simp: Let_def split: prod.splits intro: si)
  have 3: "bucket_inv dec (blob b')" if "set_comment_plb enc dec b kw comment = Inr b'" for b'
    using that unfolding set_comment_plb_triples [OF ts] by (rule si)
  have 4: "bucket_inv dec (blob b')" if "remove_plb dec b kw = Inr (r, b')" for r b'
  proof -
    from that have "b' = b \<or> blob b' = serialize (filter (\<lambda>t. fst t \<noteq> kw) ts @ [])"
      unfolding remove_plb_triples [OF ts] by (auto split: if_splits)
    then show ?thesis
    proof
      assume "b' = b" then show ?thesis using inv by simp
    next
      assume e: "blob b' = serialize (filter (\<lambda>t. fst t \<noteq> kw) ts @ [])"
      show ?thesis unfolding e by (rule inv_after_filter_append [OF ts(1) ok]) auto
    qed
  qed
  from 1 2 3 4 show ?thesis by blast
qed

lemma bytes_ids_step:
  "bytes_ids (replicate n (CHR ''1'') @ CHR '','' # rest) acc = (acc + n) # bytes_ids rest 0"
  by (induction n arbitrary: acc) auto

lemma bytes_ids_ids_bytes: "bytes_ids (ids_bytes ns) 0 = ns"
  by (induction ns) (auto simp: bytes_ids_step)

lemma demo_codec: "demo_decode (demo_encode v) = v"
  by (cases v) (auto simp: demo_decode_def demo_encode_def bytes_ids_ids_bytes)

lemma length_ids_bytes: "length (ids_bytes ns) = sum_list ns + length ns"
  by (induction ns) auto

lemma length_demo_encode:
  "length (demo_encode (Some x)) = Suc (sum_list (sorted_list_of_fset x) + length (sorted_list_of_fset x))"
  by (simp add: demo_encode_def length_ids_bytes)

theorem bucket_invariant_preserved_witness:
  "bucket_inv demo_decode
     (blob (PostingListBucket (serialize [(''hello'', [], demo_encode (Some {|2|}))])))
   \<and> add_plb demo_encode demo_decode
       (PostingListBucket (serialize [(''hello'', [], demo_encode (Some {|2|}))]))
       ''hello'' {|5|}
     = Inr (PostingListBucket (serialize [(''hello'', [], demo_encode (Some {|2, 5|}))]))
   \<and> bucket_inv demo_decode
     (blob (PostingListBucket (serialize [(''hello'', [], demo_encode (Some {|2, 5|}))])))"
proof -
  let ?ts = "[(''hello'', [], demo_encode (Some {|2|}))]"
  let ?b = "PostingListBucket (serialize [(''hello'', [], demo_encode (Some {|2|}))])"
  have f: "list_all fits ?ts"
    by (simp add: fits_def length_demo_encode sorted_list_of_fset.rep_eq)
  have bl: "blob ?b = serialize ?ts" by (simp add: PostingListBucket_def)
  have inv: "bucket_inv demo_decode (blob ?b)"
    unfolding bl by (rule bucket_invI [OF f]) (simp_all add: stored_ok_def demo_codec truthy_def)
  have f2: "fits (''hello'', [], demo_encode (Some {|2, 5|}))"
    by (simp add: fits_def length_demo_encode sorted_list_of_fset.rep_eq)
  have "{|2, 5|} = {|2|} |\<union>| {|5::nat|}" by auto
  then have add: "add_plb demo_encode demo_decode ?b ''hello'' {|5|}
       = Inr (PostingListBucket (serialize [(''hello'', [], demo_encode (Some {|2, 5|}))]))"
    unfolding add_plb_triples [OF f bl]
    using f2 by (simp add: set_result_def demo_codec truthy_def PostingListBucket_def)
  from bucket_invariant_preserved [where enc = demo_encode and dec = demo_decode
      and kw = "''hello''" and ints = "{|5|}", OF demo_codec inv] add
  have "bucket_inv demo_decode
     (blob (PostingListBucket (serialize [(''hello'', [], demo_encode (Some {|2, 5|}))])))"
    by blast
  with inv add show ?thesis by blast
qed

lemma find_loop_absent:
  "items rest = Inr ts \<Longrightarrow> k \<notin> fst ` set ts \<Longrightarrow>
     \<exists>chunks'. find_iset_loop dec k rest chunks bc iset = Inr (chunks', bc, iset)"
proof (induction rest arbitrary: ts chunks rule: items.induct)
  case (1 rest)
  show ?case
  proof (cases "rest = []")
    case True
    then show ?thesis by (simp add: find_iset_loop.simps)
  next
    case False
    from "1.prems"(1) False obtain kw_ln c_ln iset_ln others where
      u: "unpack_HHI (slice rest 0 8) = Inr (kw_ln, c_ln, iset_ln)"
      and r: "items (drop (8 + kw_ln + c_ln + iset_ln) rest) = Inr others"
      and ts: "ts = (slice rest 8 (8 + kw_ln), slice rest (8 + kw_ln) (8 + kw_ln + c_ln),
                     slice rest (8 + kw_ln + c_ln) (8 + kw_ln + c_ln + iset_ln)) # others"
      by (subst (asm) items.simps) (auto simp: Let_def split: sum.splits)
    have ne: "slice rest 8 (8 + kw_ln) \<noteq> k" and ab: "k \<notin> fst ` set others"
      using "1.prems"(2) ts by auto
    from "1.IH" [OF False u refl refl refl refl r ab]
    obtain chunks' where "find_iset_loop dec k (drop (8 + kw_ln + c_ln + iset_ln) rest)
         (chunks @ [slice rest 0 (8 + kw_ln + c_ln + iset_ln)]) bc iset = Inr (chunks', bc, iset)"
      by blast
    then show ?thesis
      using False u ne by (subst find_iset_loop.simps) (simp add: Let_def)
  qed
qed

text \<open>
  C10.  When no triple of the bucket's blob is stored under \<open>kw\<close>, \<open>remove(kw)\<close>
  returns \<open>(b'', None)\<close> and leaves the bucket, its blob included, as it was.
\<close>

theorem remove_absent_keyword:
  assumes "items (blob b) = Inr ts" and "kw \<notin> set (map fst ts)"
  shows "remove_plb dec b kw = Inr (([], None), b)"
proof -
  from find_loop_absent [OF assms(1), of kw dec "[]" "[]" None] assms(2)
  obtain chunks' where "find_iset_loop dec kw (blob b) [] [] None = Inr (chunks', [], None)"
    by auto
  then show ?thesis by (simp add: remove_plb_def find_iset_def)
qed

theorem remove_absent_keyword_witness:
  "items (blob (PostingListBucket (serialize [(''hello'', [], ''I11,'')]))) =
      Inr [(''hello'', [], ''I11,'')]
   \<and> remove_plb demo_decode (PostingListBucket (serialize [(''hello'', [], ''I11,'')])) ''floop''
     = Inr (([], None), PostingListBucket (serialize [(''hello'', [], ''I11,'')]))"
proof -
  have i: "items (blob (PostingListBucket (serialize [(''hello'', [], ''I11,'')]))) =
      Inr [(''hello'', [], ''I11,'')]"
    using items_concat [of "[(''hello'', [], ''I11,'')]"]
    by (simp add: PostingListBucket_def fits_def)
  from remove_absent_keyword [OF i, of "''floop''" demo_decode] i show ?thesis by simp
qed


section \<open>Keyword placement\<close>

lemma empty_l1_from_Inr:
  "empty_l1_from s i = Inr idx \<Longrightarrow>
     i \<le> idx \<and> idx < l2_begin s \<and> records s idx = None
     \<and> (\<forall>j. i \<le> j \<and> j < idx \<longrightarrow> records s j \<noteq> None)"
proof (induction s i rule: empty_l1_from.induct)
  case (1 s i)
  show ?case
  proof (cases "i \<ge> l2_begin s")
    case True
    with "1.prems" show ?thesis by (simp add: empty_l1_from.simps)
  next
    case False
    show ?thesis
    proof (cases "records s i = None")
      case True
      with False "1.prems" show ?thesis by (auto simp add: empty_l1_from.simps)
    next
      case nonempty: False
      with False "1.prems" have r: "empty_l1_from s (i + 1) = Inr idx"
        by (simp add: empty_l1_from.simps)
      from "1.IH" [OF False nonempty r]
      have ih: "i + 1 \<le> idx" "idx < l2_begin s" "records s idx = None"
        "\<forall>j. i + 1 \<le> j \<and> j < idx \<longrightarrow> records s j \<noteq> None" by auto
      have "records s j \<noteq> None" if "i \<le> j" "j < idx" for j
      proof (cases "j = i")
        case True
        then show ?thesis using nonempty by simp
      next
        case False
        with that have "i + 1 \<le> j" by simp
        with ih(4) that show ?thesis by blast
      qed
      with ih show ?thesis by auto
    qed
  qed
qed

lemma empty_l1_from_exists:
  "i \<le> j \<Longrightarrow> j < l2_begin s \<Longrightarrow> records s j = None \<Longrightarrow> \<exists>idx. empty_l1_from s i = Inr idx"
proof (induction s i rule: empty_l1_from.induct)
  case (1 s i)
  show ?case
  proof (cases "records s i = None")
    case True
    with "1.prems" show ?thesis by (simp add: empty_l1_from.simps)
  next
    case False
    with "1.prems" have "i \<noteq> j" by auto
    with "1.prems" have "i + 1 \<le> j" and nl: "\<not> i \<ge> l2_begin s" by auto
    from "1.IH" [OF nl False this(1) "1.prems"(2,3)] False nl show ?thesis
      by (simp add: empty_l1_from.simps)
  qed
qed

lemma empty_l1_from_full:
  "(\<forall>j. i \<le> j \<and> j < l2_begin s \<longrightarrow> records s j \<noteq> None) \<Longrightarrow> empty_l1_from s i = Inl TypeError"
proof (induction s i rule: empty_l1_from.induct)
  case (1 s i)
  show ?case
  proof (cases "i \<ge> l2_begin s")
    case True
    then show ?thesis by (simp add: empty_l1_from.simps)
  next
    case False
    with "1.prems" have ne: "records s i \<noteq> None" by auto
    have "empty_l1_from s (i + 1) = Inl TypeError"
      by (rule "1.IH" [OF False ne]) (use "1.prems" in auto)
    with False ne show ?thesis by (simp add: empty_l1_from.simps)
  qed
qed

text \<open>
  C2.  \<open>keyword_index(kw, prefer_l1, create)\<close> returns (1) the index stored in the
  hashed-key map when the map holds the hash of \<open>kw\<close>; (2) otherwise, when \<open>prefer_l1\<close>
  is true (the default for a keyword that starts with \<open>in:\<close>), \<open>create\<close> is true and
  some record of the L1 region is unoccupied, the first unoccupied record index of
  \<open>[l1_begin, l2_begin)\<close>, after storing it under the key and writing an empty bucket
  there; (3) otherwise \<open>l2_begin\<close> plus the first four hash bytes, read as a
  little-endian number, modulo \<open>l2_buckets\<close>.
\<close>

theorem keyword_index_placement:
  "(\<forall>pos idx. keys s (hash_key E kw) = Some (pos, idx) \<longrightarrow>
       keyword_index E s kw prefer_l1 create = Inr (idx, s))
   \<and> (keys s (hash_key E kw) = None
        \<and> (prefer_l1 = Some True \<or> prefer_l1 = None \<and> take 3 kw = ''in:'') \<and> create
        \<and> (\<exists>j. l1_begin s \<le> j \<and> j < l2_begin s \<and> records s j = None)
      \<longrightarrow> (\<exists>idx. keyword_index E s kw prefer_l1 create =
                  Inr (idx, s\<lparr>keys := (keys s)(hash_key E kw \<mapsto> (0, idx)),
                              records := (records s)(idx \<mapsto> RBytes [])\<rparr>)
             \<and> l1_begin s \<le> idx \<and> idx < l2_begin s \<and> records s idx = None
             \<and> (\<forall>j. l1_begin s \<le> j \<and> j < idx \<longrightarrow> records s j \<noteq> None)))
   \<and> (keys s (hash_key E kw) = None
        \<and> \<not> ((prefer_l1 = Some True \<or> prefer_l1 = None \<and> take 3 kw = ''in:'') \<and> create)
        \<and> 4 \<le> length (hash_key E kw) \<and> 0 < l2_buckets s
      \<longrightarrow> keyword_index E s kw prefer_l1 create =
            Inr (l2_begin s + le_nat (take 4 (hash_key E kw)) mod l2_buckets s, s))"
proof (intro conjI allI impI)
  fix pos idx
  assume "keys s (hash_key E kw) = Some (pos, idx)"
  then show "keyword_index E s kw prefer_l1 create = Inr (idx, s)"
    by (simp add: keyword_index_def Let_def)
next
  assume a: "keys s (hash_key E kw) = None
        \<and> (prefer_l1 = Some True \<or> prefer_l1 = None \<and> take 3 kw = ''in:'') \<and> create
        \<and> (\<exists>j. l1_begin s \<le> j \<and> j < l2_begin s \<and> records s j = None)"
  then obtain j where j: "l1_begin s \<le> j" "j < l2_begin s" "records s j = None" by blast
  from empty_l1_from_exists [OF j] obtain idx where i: "empty_l1_from s (l1_begin s) = Inr idx"
    by blast
  from a have p: "(if prefer_l1 = None \<and> take 3 kw = ''in:'' then Some True else prefer_l1) = Some True"
    by auto
  have "keyword_index E s kw prefer_l1 create =
                  Inr (idx, s\<lparr>keys := (keys s)(hash_key E kw \<mapsto> (0, idx)),
                              records := (records s)(idx \<mapsto> RBytes [])\<rparr>)"
    using a i p by (simp add: keyword_index_def Let_def empty_l1_idx_def)
  with empty_l1_from_Inr [OF i]
  show "\<exists>idx. keyword_index E s kw prefer_l1 create =
                  Inr (idx, s\<lparr>keys := (keys s)(hash_key E kw \<mapsto> (0, idx)),
                              records := (records s)(idx \<mapsto> RBytes [])\<rparr>)
             \<and> l1_begin s \<le> idx \<and> idx < l2_begin s \<and> records s idx = None
             \<and> (\<forall>j. l1_begin s \<le> j \<and> j < idx \<longrightarrow> records s j \<noteq> None)"
    by blast
next
  assume a: "keys s (hash_key E kw) = None
        \<and> \<not> ((prefer_l1 = Some True \<or> prefer_l1 = None \<and> take 3 kw = ''in:'') \<and> create)
        \<and> 4 \<le> length (hash_key E kw) \<and> 0 < l2_buckets s"
  then show "keyword_index E s kw prefer_l1 create =
            Inr (l2_begin s + le_nat (take 4 (hash_key E kw)) mod l2_buckets s, s)"
    by (cases prefer_l1; cases create) (auto simp: keyword_index_def Let_def min_def)
qed


theorem keyword_index_placement_witness:
  "keyword_index demo_env (demo_engine\<lparr>keys := [demo_hash ''in:a'' \<mapsto> (0, 2001)],
                                        records := [2001 \<mapsto> RBytes []]\<rparr>) ''in:a'' None False
     = Inr (2001, demo_engine\<lparr>keys := [demo_hash ''in:a'' \<mapsto> (0, 2001)],
                              records := [2001 \<mapsto> RBytes []]\<rparr>)
   \<and> (\<exists>idx. keyword_index demo_env demo_engine ''in:b'' None True =
         Inr (idx, demo_engine\<lparr>keys := (keys demo_engine)(demo_hash ''in:b'' \<mapsto> (0, idx)),
                                records := (records demo_engine)(idx \<mapsto> RBytes [])\<rparr>)
        \<and> idx = 2001)
   \<and> keyword_index demo_env demo_engine ''hello'' None True = Inr (2004, demo_engine)"
proof -
  let ?s = "demo_engine\<lparr>keys := [demo_hash ''in:a'' \<mapsto> (0, 2001)],
                        records := [2001 \<mapsto> RBytes []]\<rparr>"
  have 1: "keyword_index demo_env ?s ''in:a'' None False = Inr (2001, ?s)"
    using keyword_index_placement [of ?s demo_env "''in:a''" None False]
    by (simp add: demo_env_def)
  have h2: "keys demo_engine (hash_key demo_env ''in:b'') = None
        \<and> (None = Some True \<or> (None :: bool option) = None \<and> take 3 ''in:b'' = ''in:'') \<and> True
        \<and> (\<exists>j. l1_begin demo_engine \<le> j \<and> j < l2_begin demo_engine \<and> records demo_engine j = None)"
    by (simp add: demo_engine_def) (rule exI [of _ 2001], simp)
  from keyword_index_placement [of demo_engine demo_env "''in:b''" None True] h2
  obtain idx where i: "keyword_index demo_env demo_engine ''in:b'' None True =
         Inr (idx, demo_engine\<lparr>keys := (keys demo_engine)(hash_key demo_env ''in:b'' \<mapsto> (0, idx)),
                                records := (records demo_engine)(idx \<mapsto> RBytes [])\<rparr>)"
     and "l1_begin demo_engine \<le> idx" "\<forall>j. l1_begin demo_engine \<le> j \<and> j < idx \<longrightarrow> records demo_engine j \<noteq> None"
    by blast
  then have "idx = 2001" by (cases "idx = 2001") (auto simp: demo_engine_def)
  with i have 2: "\<exists>idx. keyword_index demo_env demo_engine ''in:b'' None True =
         Inr (idx, demo_engine\<lparr>keys := (keys demo_engine)(demo_hash ''in:b'' \<mapsto> (0, idx)),
                                records := (records demo_engine)(idx \<mapsto> RBytes [])\<rparr>)
        \<and> idx = 2001"
    by (simp add: demo_env_def)
  have 3: "keyword_index demo_env demo_engine ''hello'' None True = Inr (2004, demo_engine)"
    using keyword_index_placement [of demo_engine demo_env "''hello''" None True]
    by (simp add: demo_env_def demo_engine_def demo_hash_def)
  from 1 2 3 show ?thesis by blast
qed



text \<open>A full L1 region: the scan of \<open>_empty_l1_idx\<close> finds nothing and falls through.\<close>

lemma keyword_index_l1_full:
  assumes "keys s (hash_key E kw) = None"
    and "prefer_l1 = Some True \<or> prefer_l1 = None \<and> take 3 kw = ''in:''"
    and "\<forall>j. l1_begin s \<le> j \<and> j < l2_begin s \<longrightarrow> records s j \<noteq> None"
  shows "keyword_index E s kw prefer_l1 True = Inl TypeError"
proof -
  from assms(2) have p: "(if prefer_l1 = None \<and> take 3 kw = ''in:'' then Some True else prefer_l1) = Some True"
    by auto
  show ?thesis
    using assms(1) p empty_l1_from_full [OF assms(3)]
    by (simp add: keyword_index_def Let_def empty_l1_idx_def)
qed

text \<open>
  C8.  With every record of the L1 region occupied, \<open>keyword_index\<close> with \<open>prefer_l1\<close>
  and \<open>create\<close> for a keyword that is not in the hashed-key map ends in \<open>raise None\<close>,
  a \<open>TypeError\<close>, and not in the \<open>StorageError\<close> the specification asks for.
\<close>

theorem keyword_index_l1_exhausted:
  "keyword_index demo_env
     (demo_engine\<lparr>records := [2001 \<mapsto> RBytes [], 2002 \<mapsto> RBytes [], 2003 \<mapsto> RBytes []]\<rparr>)
     ''in:new'' None True = Inl TypeError"
proof (rule keyword_index_l1_full)
  show "keys (demo_engine\<lparr>records := [2001 \<mapsto> RBytes [], 2002 \<mapsto> RBytes [], 2003 \<mapsto> RBytes []]\<rparr>)
     (hash_key demo_env ''in:new'') = None"
    by (simp add: demo_engine_def)
  show "None = Some True \<or> (None :: bool option) = None \<and> take 3 ''in:new'' = ''in:''" by simp
  show "\<forall>j. l1_begin (demo_engine\<lparr>records := [2001 \<mapsto> RBytes [], 2002 \<mapsto> RBytes [], 2003 \<mapsto> RBytes []]\<rparr>) \<le> j
      \<and> j < l2_begin (demo_engine\<lparr>records := [2001 \<mapsto> RBytes [], 2002 \<mapsto> RBytes [], 2003 \<mapsto> RBytes []]\<rparr>)
      \<longrightarrow> records (demo_engine\<lparr>records := [2001 \<mapsto> RBytes [], 2002 \<mapsto> RBytes [], 2003 \<mapsto> RBytes []]\<rparr>) j \<noteq> None"
    by (auto simp: demo_engine_def)
qed


section \<open>Running the model on concrete inputs\<close>

lemma get_plb_serialize:
  "list_all fits ts \<Longrightarrow>
   get_plb dec \<lparr>blob = serialize ts, deleted = d\<rparr> k = Inr (last_match dec k ts ([], None))"
  by (rule get_plb_triples) simp_all

lemma set_plb_serialize:
  "list_all fits ts \<Longrightarrow>
   set_plb enc dec \<lparr>blob = serialize ts, deleted = d\<rparr> k iset comment None =
     set_result enc \<lparr>blob = serialize ts, deleted = d\<rparr> ts k iset
       (if comment \<noteq> [] then comment else fst (last_match dec k ts ([], None)))"
  by (rule set_plb_triples) simp_all

lemma add_plb_serialize:
  "list_all fits ts \<Longrightarrow>
   add_plb enc dec \<lparr>blob = serialize ts, deleted = d\<rparr> k ints =
     (let (fc, fv) = last_match dec k ts ([], None);
          iset1 = (case fv of None \<Rightarrow> {||} | Some s \<Rightarrow> s);
          iset2 = (if ints \<noteq> {||} then iset1 |\<union>| ints else iset1);
          iset3 = (case d of None \<Rightarrow> iset2 | Some d \<Rightarrow> iset2 |-| d)
      in set_result enc \<lparr>blob = serialize ts, deleted = d\<rparr> ts k (Some iset3) fc)"
  using add_plb_triples [of ts "\<lparr>blob = serialize ts, deleted = d\<rparr>" enc dec k ints] by simp

lemma set_comment_plb_serialize:
  "list_all fits ts \<Longrightarrow>
   set_comment_plb enc dec \<lparr>blob = serialize ts, deleted = d\<rparr> k comment =
     set_result enc \<lparr>blob = serialize ts, deleted = d\<rparr> ts k
       (snd (last_match dec k ts ([], None)))
       (if comment \<noteq> [] then comment
        else if k \<noteq> [] \<and> filter (\<lambda>t. fst t \<noteq> k) ts \<noteq> [] then []
        else fst (last_match dec k ts ([], None)))"
  by (rule set_comment_plb_triples) simp_all

lemmas plb_serialize = get_plb_serialize set_plb_serialize add_plb_serialize
  set_comment_plb_serialize

lemmas plb_empty = plb_serialize [of "[]", unfolded serialize_Nil, simplified]

lemma demo_hash_inj [simp]: "demo_hash a = demo_hash b \<longleftrightarrow> a = b"
proof
  assume "demo_hash a = demo_hash b"
  then have "drop 4 (demo_hash a) = drop 4 (demo_hash b)" by simp
  then show "a = b" by (simp add: demo_hash_def)
qed simp

lemma length_demo_hash [simp]: "length (take 4 (demo_hash kw)) = 4"
  by (simp add: demo_hash_def)

lemma fits_demo:
  "fits (k, c, demo_encode (Some x)) \<longleftrightarrow>
     length k < 65536 \<and> length c < 65536
     \<and> Suc (sum_list (sorted_list_of_fset x) + length (sorted_list_of_fset x)) < 4294967296"
  by (simp add: fits_def length_demo_encode)



lemma demo_env_simps:
  "dumb_decode demo_env = demo_decode"
  "dumb_encode_bin demo_env = demo_encode"
  "dumb_encode_asc demo_env = (\<lambda>x. demo_encode (Some x))"
  "from_json demo_env = (\<lambda>b. [])"
  "to_json demo_env = (\<lambda>d. ''{}'')"
  "hash_key demo_env = demo_hash"
  "tag_quote demo_env = (\<lambda>t. t)"
  "tag_unquote demo_env = (\<lambda>t. Inr t)"
  "version_to_keywords demo_env = (\<lambda>v. [''version:'' @ replicate (nat v) (CHR ''i'')])"
  "ts_to_keywords demo_env = (\<lambda>t. [''vdate:now''])"
  "parse_terms demo_env = TStr"
  by (simp_all add: demo_env_def)

lemma fset_eq_sorted:
  "(A :: nat fset) = B \<longleftrightarrow> sorted_list_of_fset A = sorted_list_of_fset B"
  by (metis sorted_list_of_fset_simps(2))

lemmas fset_eval =
  fset_eq_sorted sorted_list_of_fset.rep_eq finsert_fminus_if finter_finsert_left

lemma replicate_numeral_eval:
  "replicate (numeral k) x = x # replicate (pred_numeral k) x"
  by (simp add: numeral_eq_Suc)

lemmas run_defs =
  mutate_def op_kwi_def mutate_op_def ns_kw_def keyword_index_def Let_def
  empty_l1_idx_def empty_l1_from.simps mutate_step_def bucket_at_def PostingListBucket_def
  plb_serialize plb_empty set_result_def fits_demo demo_codec truthy_def
  allocate_history_slot_def history_get_def IDX_HISTORY_STATUS_def IDX_HISTORY_START_def
  IDX_HISTORY_END_def touch_def touch_version_def add_results_def prep_results_def
  prep_keyword_def tag_quote_magic_def
  getitem_def get_version_def fset_eval demo_env_simps demo_hash_def replicate_numeral_eval

lemmas demo_defs = demo_engine_def

section \<open>Subscript lookup\<close>

lemma unpack_HHI_error: "unpack_HHI b = Inl e \<Longrightarrow> e = StructError"
  by (simp add: unpack_HHI_def split: if_splits)

lemma find_iset_loop_error:
  "find_iset_loop dec k rest chunks bc iset = Inl e \<Longrightarrow> e = StructError"
proof (induction dec k rest chunks bc iset rule: find_iset_loop.induct)
  case (1 dec bkeyword rest chunks bcomment iset)
  show ?case
  proof (cases "rest = []")
    case True
    with "1.prems" show ?thesis by (simp add: find_iset_loop.simps)
  next
    case False
    show ?thesis
    proof (cases "unpack_HHI (slice rest 0 8)")
      case (Inl e')
      with False "1.prems" have "e = e'" by (simp add: find_iset_loop.simps)
      with Inl show ?thesis by (simp add: unpack_HHI_error)
    next
      case (Inr t)
      obtain kw_ln c_ln iset_ln where t: "t = (kw_ln, c_ln, iset_ln)" by (cases t)
      show ?thesis
      proof (cases "slice rest 8 (8 + kw_ln) \<noteq> bkeyword")
        case True
        with "1.prems" False Inr t
        have "find_iset_loop dec bkeyword (drop (8 + kw_ln + c_ln + iset_ln) rest)
                (chunks @ [slice rest 0 (8 + kw_ln + c_ln + iset_ln)]) bcomment iset = Inl e"
          by (simp add: find_iset_loop.simps [of dec bkeyword rest] Let_def)
        with "1.IH"(1) [OF False Inr [unfolded t] refl refl refl refl refl True]
        show ?thesis by simp
      next
        case eq: False
        with "1.prems" False Inr t
        have "find_iset_loop dec bkeyword (drop (8 + kw_ln + c_ln + iset_ln) rest) chunks
                (slice rest (8 + kw_ln) (8 + kw_ln + c_ln))
                (dec (slice rest (8 + kw_ln + c_ln) (8 + kw_ln + c_ln + iset_ln))) = Inl e"
          by (simp add: find_iset_loop.simps [of dec bkeyword rest] Let_def)
        with "1.IH"(2) [OF False Inr [unfolded t] refl refl refl refl refl eq]
        show ?thesis by simp
      qed
    qed
  qed
qed

lemma get_plb_error: "get_plb dec b k = Inl e \<Longrightarrow> e = StructError"
  by (auto simp: get_plb_def find_iset_def split: sum.splits dest: find_iset_loop_error)

lemma find_loop_items:
  "items rest = Inr ts \<Longrightarrow>
     \<exists>chunks'. find_iset_loop dec k rest chunks bc iset =
        Inr (chunks', last_match dec k ts (bc, iset))"
proof (induction rest arbitrary: ts chunks bc iset rule: items.induct)
  case (1 rest)
  show ?case
  proof (cases "rest = []")
    case True
    with "1.prems" show ?thesis by (simp add: find_iset_loop.simps items.simps)
  next
    case False
    from "1.prems"(1) False obtain kw_ln c_ln iset_ln others where
      u: "unpack_HHI (slice rest 0 8) = Inr (kw_ln, c_ln, iset_ln)"
      and r: "items (drop (8 + kw_ln + c_ln + iset_ln) rest) = Inr others"
      and ts: "ts = (slice rest 8 (8 + kw_ln), slice rest (8 + kw_ln) (8 + kw_ln + c_ln),
                     slice rest (8 + kw_ln + c_ln) (8 + kw_ln + c_ln + iset_ln)) # others"
      by (subst (asm) items.simps) (auto simp: Let_def split: sum.splits)
    note ih = "1.IH" [OF False u refl refl refl refl r]
    show ?thesis
    proof (cases "slice rest 8 (8 + kw_ln) \<noteq> k")
      case True
      from ih [of "chunks @ [slice rest 0 (8 + kw_ln + c_ln + iset_ln)]" bc iset]
      show ?thesis
        using False u True ts by (subst find_iset_loop.simps) (simp add: Let_def)
    next
      case eq: False
      from ih [of chunks "slice rest (8 + kw_ln) (8 + kw_ln + c_ln)"
                 "dec (slice rest (8 + kw_ln + c_ln) (8 + kw_ln + c_ln + iset_ln))"]
      show ?thesis
        using False u eq ts by (subst find_iset_loop.simps) (simp add: Let_def)
    qed
  qed
qed

lemma get_plb_items:
  "items (blob b) = Inr ts \<Longrightarrow> get_plb dec b k = Inr (last_match dec k ts ([], None))"
  using find_loop_items [of "blob b" ts dec k "[]" "[]" None]
  by (auto simp: get_plb_def find_iset_def)

lemma keyword_index_no_create:
  "keyword_index E s kw None False = Inr (idx, s') \<Longrightarrow> s' = s"
  by (auto simp: keyword_index_def Let_def split: option.splits if_splits)

lemma keyword_index_no_create_error:
  "keyword_index E s kw None False = Inl e \<Longrightarrow> e = StructError \<or> e = ZeroDivisionError"
  by (auto simp: keyword_index_def Let_def split: option.splits if_splits)

lemma keyword_index_no_create_ok:
  "4 \<le> length (hash_key E kw) \<Longrightarrow> 0 < l2_buckets s \<Longrightarrow>
     \<exists>idx. keyword_index E s kw None False = Inr (idx, s)"
  by (auto simp: keyword_index_def Let_def split: option.splits if_splits)

lemma bucket_at_error: "bucket_at s idx = Inl e \<Longrightarrow> e = TypeError"
  by (auto simp: bucket_at_def split: option.splits recval.splits)

text \<open>
  C9.  \<open>engine[kw]\<close> never raises \<open>KeyError\<close>.  When the key hash has its four bytes
  and \<open>l2_buckets\<close> is not 0, \<open>keyword_index\<close> resolves \<open>kw\<close> to a record; when that
  record is absent the result is the empty IntSet; when it is a blob that \<open>items\<close>
  can read, the result is an IntSet, and it is the empty one when no triple holds
  \<open>kw\<close>.  (The result type of the model has no \<open>None\<close>.)
\<close>

theorem getitem_returns_intset:
  "getitem E s kw \<noteq> Inl KeyError
   \<and> (4 \<le> length (hash_key E kw) \<and> 0 < l2_buckets s \<longrightarrow>
        (\<exists>idx. keyword_index E s kw None False = Inr (idx, s)))
   \<and> (\<forall>idx s'. keyword_index E s kw None False = Inr (idx, s') \<longrightarrow>
         (records s idx = None \<longrightarrow> getitem E s kw = Inr {||})
       \<and> (\<forall>b ts. records s idx = Some (RBytes b) \<and> items b = Inr ts \<longrightarrow>
             (\<exists>x. getitem E s kw = Inr x)
           \<and> (kw \<notin> fst ` set ts \<longrightarrow> getitem E s kw = Inr {||})))"
proof (intro conjI allI impI)
  show "getitem E s kw \<noteq> Inl KeyError"
    by (auto simp: getitem_def split: sum.splits prod.splits
        dest: keyword_index_no_create_error bucket_at_error get_plb_error)
next
  assume "4 \<le> length (hash_key E kw) \<and> 0 < l2_buckets s"
  then show "\<exists>idx. keyword_index E s kw None False = Inr (idx, s)"
    by (simp add: keyword_index_no_create_ok)
next
  fix idx s'
  assume k: "keyword_index E s kw None False = Inr (idx, s')" and "records s idx = None"
  then show "getitem E s kw = Inr {||}"
    by (simp add: getitem_def bucket_at_def plb_empty PostingListBucket_def)
next
  fix idx s' b ts
  assume k: "keyword_index E s kw None False = Inr (idx, s')"
    and r: "records s idx = Some (RBytes b) \<and> items b = Inr ts"
  then have g: "get_plb (dumb_decode E) (PostingListBucket b) kw
      = Inr (last_match (dumb_decode E) kw ts ([], None))"
    by (intro get_plb_items) (simp add: PostingListBucket_def)
  obtain c v where lm: "last_match (dumb_decode E) kw ts ([], None) = (c, v)"
    by (cases "last_match (dumb_decode E) kw ts ([], None)")
  show "\<exists>x. getitem E s kw = Inr x"
    using k r g lm by (simp add: getitem_def bucket_at_def)
  show "getitem E s kw = Inr {||}" if "kw \<notin> fst ` set ts"
    using k r g last_match_absent [OF that, of "dumb_decode E" "([], None)"]
    by (simp add: getitem_def bucket_at_def)
qed

theorem getitem_returns_intset_witness:
  "keyword_index demo_env
     (demo_engine\<lparr>records := [2004 \<mapsto> RBytes (serialize [(''hello'', [], demo_encode (Some {|1, 2|}))])]\<rparr>)
     ''hello'' None False
     = Inr (2004, demo_engine\<lparr>records := [2004 \<mapsto> RBytes (serialize [(''hello'', [], demo_encode (Some {|1, 2|}))])]\<rparr>)
   \<and> getitem demo_env
     (demo_engine\<lparr>records := [2004 \<mapsto> RBytes (serialize [(''hello'', [], demo_encode (Some {|1, 2|}))])]\<rparr>)
     ''hello'' = Inr {|1, 2|}
   \<and> getitem demo_env
     (demo_engine\<lparr>records := [2004 \<mapsto> RBytes (serialize [(''hello'', [], demo_encode (Some {|1, 2|}))])]\<rparr>)
     ''help'' = Inr {||}
   \<and> getitem demo_env demo_engine ''hello'' = Inr {||}"
proof -
  let ?s = "demo_engine\<lparr>records := [2004 \<mapsto> RBytes (serialize [(''hello'', [], demo_encode (Some {|1, 2|}))])]\<rparr>"
  have k1: "keyword_index demo_env ?s ''hello'' None False = Inr (2004, ?s)"
    by (simp add: keyword_index_def demo_env_simps demo_hash_def demo_engine_def)
  have k2: "keyword_index demo_env ?s ''help'' None False = Inr (2004, ?s)"
    by (simp add: keyword_index_def demo_env_simps demo_hash_def demo_engine_def)
  have k3: "keyword_index demo_env demo_engine ''hello'' None False = Inr (2004, demo_engine)"
    by (simp add: keyword_index_def demo_env_simps demo_hash_def demo_engine_def)
  have r: "records ?s 2004 = Some (RBytes (serialize [(''hello'', [], demo_encode (Some {|1, 2|}))]))
      \<and> items (serialize [(''hello'', [], demo_encode (Some {|1, 2|}))])
          = Inr [(''hello'', [], demo_encode (Some {|1, 2|}))]"
    by (simp add: demo_engine_def items_concat fits_demo sorted_list_of_fset.rep_eq)
  have g1: "getitem demo_env ?s ''hello'' = Inr {|1, 2|}"
    by (simp add: run_defs demo_defs)
  from getitem_returns_intset [of demo_env ?s "''help''"] k2 r
  have g2: "getitem demo_env ?s ''help'' = Inr {||}" by fastforce
  from getitem_returns_intset [of demo_env demo_engine "''hello''"] k3
  have g3: "getitem demo_env demo_engine ''hello'' = Inr {||}"
    by (simp add: demo_engine_def)
  from k1 g1 g2 g3 show ?thesis by blast
qed


section \<open>The version counter\<close>

lemma frame_refl [simp]: "frame s s"
  by (simp add: frame_def)

lemma frame_trans: "frame s s1 \<Longrightarrow> frame s1 s2 \<Longrightarrow> frame s s2"
  by (simp add: frame_def)

lemma frame_records [simp]: "frame s (s'\<lparr>records := r\<rparr>) = frame s s'"
  by (simp add: frame_def)

lemma frame_maxint [simp]: "frame s (s'\<lparr>maxint := m\<rparr>) = frame s s'"
  by (simp add: frame_def)

lemma frame_part_spaces [simp]: "frame s (s'\<lparr>part_spaces_1 := p\<rparr>) = frame s s'"
  by (simp add: frame_def)

lemma frame_keys [simp]: "frame s (s'\<lparr>keys := k\<rparr>) = frame s s'"
  by (simp add: frame_def)

lemma frame_records_left [simp]: "frame (s\<lparr>records := r\<rparr>) s' = frame s s'"
  by (simp add: frame_def)

lemma frame_keys_left [simp]: "frame (s\<lparr>keys := k\<rparr>) s' = frame s s'"
  by (simp add: frame_def)

lemma frame_maxint_left [simp]: "frame (s\<lparr>maxint := m\<rparr>) s' = frame s s'"
  by (simp add: frame_def)

lemma keyword_index_frame:
  "keyword_index E s kw p c = Inr (i, s') \<Longrightarrow> frame s s'"
  by (auto simp: keyword_index_def Let_def split: option.splits if_splits sum.splits)

lemma index_keywords_frame:
  "index_keywords E s p c ks = Inr (l, s') \<Longrightarrow> frame s s'"
proof (induction ks arbitrary: s l)
  case Nil
  then show ?case by simp
next
  case (Cons k ks)
  then show ?case
    by (auto split: sum.splits prod.splits dest!: keyword_index_frame intro: frame_trans)
qed

lemma op_kwi_frame: "op_kwi E s ns op kw = Inr (l, s') \<Longrightarrow> frame s s'"
  by (auto simp: op_kwi_def split: sum.splits if_splits prod.splits dest: keyword_index_frame)

lemma expand_ops_frame: "expand_ops E s ns ops = Inr (l, s') \<Longrightarrow> frame s s'"
proof (induction ops arbitrary: s l)
  case Nil
  then show ?case by simp
next
  case (Cons a ops)
  obtain op kw where a: "a = (op, kw)" by (cases a)
  from Cons.prems show ?case
    by (auto simp: a split: sum.splits prod.splits dest!: op_kwi_frame Cons.IH intro: frame_trans)
qed

lemma mutate_step_frame:
  "mutate_step E m (s, acc) okw = Inr (s', acc') \<Longrightarrow> frame s s'"
  by (cases okw; cases acc; cases m)
     (auto simp: mutate_step_def Let_def split: sum.splits prod.splits if_splits)

lemma mutate_steps_frame:
  "mutate_steps E m (s, acc) l = Inr (s', acc') \<Longrightarrow> frame s s'"
proof (induction l arbitrary: s acc)
  case Nil
  then show ?case by simp
next
  case (Cons okw l)
  from Cons.prems obtain s1 acc1 where 1: "mutate_step E m (s, acc) okw = Inr (s1, acc1)"
    and 2: "mutate_steps E m (s1, acc1) l = Inr (s', acc')"
    by (auto split: sum.splits)
  from mutate_step_frame [OF 1] Cons.IH [OF 2] show ?case by (rule frame_trans)
qed

lemma mutate_loop_frame:
  "mutate_loop E ns (s, acc) mlist = Inr (s', acc') \<Longrightarrow> frame s s'"
proof (induction mlist arbitrary: s acc)
  case Nil
  then show ?case by simp
next
  case (Cons a mlist)
  obtain mset ops where a: "a = (mset, ops)" by (cases a)
  from Cons.prems obtain l s1 s2 acc2 where 1: "expand_ops E s ns ops = Inr (l, s1)"
    and 2: "mutate_steps E mset (s1, acc) l = Inr (s2, acc2)"
    and 3: "mutate_loop E ns (s2, acc2) mlist = Inr (s', acc')"
    by (auto simp: a split: sum.splits prod.splits)
  from expand_ops_frame [OF 1] mutate_steps_frame [OF 2] Cons.IH [OF 3]
  show ?case by (blast intro: frame_trans)
qed

lemma add_loop_frame: "add_loop E s kws l = Inr s' \<Longrightarrow> frame s s'"
proof (induction l arbitrary: s)
  case Nil
  then show ?case by simp
next
  case (Cons a l)
  obtain idx kw where a: "a = (idx, kw)" by (cases a)
  from Cons.prems obtain plb :: posting_list_bucket where
    "add_loop E (s\<lparr>records := (records s)(idx \<mapsto> RBytes (blob plb))\<rparr>) kws l = Inr s'"
    by (auto simp: a split: sum.splits option.splits)
  from Cons.IH [OF this] show ?case by simp
qed

lemma add_results_frame:
  "add_results E s results p ns False now = Inr (r, s') \<Longrightarrow> frame s s'"
  by (auto simp: add_results_def prep_results_def Let_def split: sum.splits prod.splits
      dest!: index_keywords_frame add_loop_frame intro: frame_trans)

lemma touch_given_version_frame:
  "touch E s ids (Some v) now = Inr (kws, s') \<Longrightarrow> frame s s'"
  by (auto simp: touch_def touch_version_def split: option.splits sum.splits
      dest!: add_results_frame)

lemma frame_get_version: "frame s s' \<Longrightarrow> get_version s' = get_version s"
  by (simp add: frame_def get_version_def history_get_def)

lemma touch_new_version:
  assumes "touch E s ids None now = Inr (kws, s')"
  shows "get_version s' = get_version s + 1"
proof -
  let ?v = "history_get s ''ver'' 0 + 1"
  let ?h = "(history s)(''ver'' \<mapsto> ?v)"
  let ?s1 = "s\<lparr>history := ?h, records := (records s)(IDX_HISTORY_STATUS \<mapsto> RStatus ?h)\<rparr>"
  have v1: "get_version ?s1 = get_version s + 1"
    by (simp add: get_version_def history_get_def)
  from assms have "s' = ?s1 \<or> (\<exists>r rs. add_results E ?s1 rs None [] False now = Inr (r, s'))"
    by (auto simp: touch_def touch_version_def Let_def split: option.splits sum.splits)
  then have "get_version s' = get_version ?s1"
    by (auto dest!: add_results_frame frame_get_version)
  with v1 show ?thesis by simp
qed

lemma allocate_history_slot_version:
  "allocate_history_slot s = ((pos, ver), s') \<Longrightarrow>
     ver = get_version s + 1 \<and> get_version s' = get_version s + 1"
  by (auto simp: allocate_history_slot_def Let_def get_version_def history_get_def
      split: option.splits)

text \<open>
  C4.  \<open>_allocate_history_slot\<close> sets \<open>pos\<close> to the previous \<open>pos\<close> (2000 when there
  is none) plus one, or to 1001 when that exceeds 2000, and adds one to \<open>ver\<close>; and a
  \<open>mutate\<close> call that returns, with or without \<open>record_history\<close>, leaves the version
  counter one larger than it was, hence strictly larger.
\<close>

theorem version_counter_advances:
  "(\<forall>pos ver s'. allocate_history_slot s = ((pos, ver), s') \<longrightarrow>
       pos = (if history_get s ''pos'' 2000 + 1 > 2000 then 1001
              else history_get s ''pos'' 2000 + 1)
     \<and> history s' ''pos'' = Some pos
     \<and> ver = get_version s + 1 \<and> get_version s' = get_version s + 1)
   \<and> (\<forall>r s'. mutate E s mlist record_history tag_namespace rnd now = Inr (r, s') \<longrightarrow>
       get_version s' = get_version s + 1 \<and> get_version s < get_version s')"
proof (intro conjI allI impI)
  fix pos ver s'
  assume a: "allocate_history_slot s = ((pos, ver), s')"
  then show "pos = (if history_get s ''pos'' 2000 + 1 > 2000 then 1001
              else history_get s ''pos'' 2000 + 1)"
    by (auto simp: allocate_history_slot_def Let_def IDX_HISTORY_END_def IDX_HISTORY_START_def)
  from a show "history s' ''pos'' = Some pos"
    by (auto simp: allocate_history_slot_def Let_def)
  from allocate_history_slot_version [OF a]
  show "ver = get_version s + 1" "get_version s' = get_version s + 1" by simp_all
next
  fix r s'
  assume m: "mutate E s mlist record_history tag_namespace rnd now = Inr (r, s')"
  then obtain s1 cset chs n where
    l: "mutate_loop E tag_namespace (s, {||}, [], 0) mlist = Inr (s1, cset, chs, n)"
    by (auto simp: mutate_def split: sum.splits)
  from mutate_loop_frame [OF l] have v1: "get_version s1 = get_version s"
    by (rule frame_get_version)
  show v: "get_version s' = get_version s + 1"
  proof (cases "\<exists>c cs. record_history = Some (c # cs)")
    case True
    then obtain c cs where rh: "record_history = Some (c # cs)" by blast
    obtain slot version s2 where al: "allocate_history_slot s1 = ((slot, version), s2)"
      by (cases "allocate_history_slot s1") auto
    from m l rh al obtain e kws where
      t: "touch E (s2\<lparr>records := (records s2)(nat slot \<mapsto> RHistory e)\<rparr>) (Some cset)
            (Some version) now = Inr (kws, s')"
      by (auto simp: mutate_def Let_def split: sum.splits if_splits)
    from touch_given_version_frame [OF t] have "get_version s' = get_version s2"
      by (simp add: frame_get_version)
    with allocate_history_slot_version [OF al] v1 show ?thesis by simp
  next
    case False
    with m l obtain kws where t: "touch E s1 (Some cset) None now = Inr (kws, s')"
      by (auto simp: mutate_def Let_def split: sum.splits option.splits list.splits)
    from touch_new_version [OF t] v1 show ?thesis by simp
  qed
  then show "get_version s < get_version s'" by simp
qed


theorem version_counter_advances_witness:
  "fst (allocate_history_slot demo_engine) = (1001, 2)
   \<and> fst (allocate_history_slot (demo_engine\<lparr>history := [''ver'' \<mapsto> 5, ''pos'' \<mapsto> 1001]\<rparr>)) = (1002, 6)
   \<and> fst (allocate_history_slot (demo_engine\<lparr>history := [''ver'' \<mapsto> 5, ''pos'' \<mapsto> 2000]\<rparr>)) = (1001, 6)
   \<and> get_version demo_engine = 1
   \<and> (\<exists>r s'. mutate demo_env demo_engine [(Ids {|6|}, [(OpStr ''+'', ''in:x'')])]
                 (Some ''a'') [] 7 0 = Inr (r, s') \<and> get_version s' = 2)
   \<and> (\<exists>r s'. mutate demo_env demo_engine [(Ids {|6|}, [(OpStr ''+'', ''in:x'')])]
                 None [] 7 0 = Inr (r, s') \<and> get_version s' = 2)"
proof -
  have v: "get_version demo_engine = 1"
    by (simp add: get_version_def history_get_def demo_engine_def)
  have a1: "fst (allocate_history_slot demo_engine) = (1001, 2)"
  proof -
    obtain pos ver s' where al: "allocate_history_slot demo_engine = ((pos, ver), s')"
      by (metis prod.exhaust)
    from version_counter_advances [of demo_engine, THEN conjunct1, rule_format, OF al] v
    have "pos = 1001" "ver = 2" by (simp_all add: history_get_def demo_engine_def)
    with al show ?thesis by simp
  qed
  let ?s2 = "demo_engine\<lparr>history := [''ver'' \<mapsto> 5, ''pos'' \<mapsto> 1001]\<rparr>"
  have a2: "fst (allocate_history_slot ?s2) = (1002, 6)"
  proof -
    obtain pos ver s' where al: "allocate_history_slot ?s2 = ((pos, ver), s')"
      by (metis prod.exhaust)
    from version_counter_advances [of ?s2, THEN conjunct1, rule_format, OF al]
    have "pos = 1002" "ver = 6" by (simp_all add: history_get_def get_version_def)
    with al show ?thesis by simp
  qed
  let ?s3 = "demo_engine\<lparr>history := [''ver'' \<mapsto> 5, ''pos'' \<mapsto> 2000]\<rparr>"
  have a3: "fst (allocate_history_slot ?s3) = (1001, 6)"
  proof -
    obtain pos ver s' where al: "allocate_history_slot ?s3 = ((pos, ver), s')"
      by (metis prod.exhaust)
    from version_counter_advances [of ?s3, THEN conjunct1, rule_format, OF al]
    have "pos = 1001" "ver = 6" by (simp_all add: history_get_def get_version_def)
    with al show ?thesis by simp
  qed
  have "\<exists>r s'. mutate demo_env demo_engine [(Ids {|6|}, [(OpStr ''+'', ''in:x'')])]
                 (Some ''a'') [] 7 0 = Inr (r, s')"
    by (simp add: run_defs demo_defs)
  then obtain r1 s1 where m1: "mutate demo_env demo_engine [(Ids {|6|}, [(OpStr ''+'', ''in:x'')])]
                 (Some ''a'') [] 7 0 = Inr (r1, s1)" by blast
  from version_counter_advances [THEN conjunct2, rule_format, OF m1] v
  have v1: "get_version s1 = 2" by simp
  have "\<exists>r s'. mutate demo_env demo_engine [(Ids {|6|}, [(OpStr ''+'', ''in:x'')])]
                 None [] 7 0 = Inr (r, s')"
    by (simp add: run_defs demo_defs)
  then obtain r2 s2 where m2: "mutate demo_env demo_engine [(Ids {|6|}, [(OpStr ''+'', ''in:x'')])]
                 None [] 7 0 = Inr (r2, s2)" by blast
  from version_counter_advances [THEN conjunct2, rule_format, OF m2] v
  have v2: "get_version s2 = 2" by simp
  from v a1 a2 a3 m1 v1 m2 v2 show ?thesis by blast
qed


section \<open>Id lists\<close>

lemma digit_char_cases:
  assumes "d < 10"
  shows "is_digit (digit_char d) \<and> digit_val (digit_char d) = d
       \<and> digit_char d \<noteq> CHR '','' \<and> digit_char d \<noteq> CHR ''.'' \<and> digit_char d \<noteq> CHR ''-''
       \<and> digit_char d \<noteq> CHR ''+''
       \<and> \<not> is_space (digit_char d)
       \<and> digit_char d \<notin> {CHR ''I'', CHR ''S'', CHR ''T'', CHR ''Z''}"
proof -
  from assms have "d \<in> {0, 1, 2, 3, 4, 5, 6, 7, 8, 9}" by auto
  then show ?thesis
    by (auto simp: digit_char_def is_digit_def digit_val_def is_space_def)
qed

lemma plain_digit_char: "d < 10 \<Longrightarrow> plain (digit_char d)"
  using digit_char_cases [of d] by (simp add: plain_def)

lemma show_nat_plain: "list_all plain (show_nat n)"
proof (induction n rule: show_nat.induct)
  case (1 n)
  show ?case
  proof (cases "n < 10")
    case True
    then show ?thesis by (subst show_nat.simps) (simp add: plain_digit_char)
  next
    case False
    with "1.IH" show ?thesis by (subst show_nat.simps) (simp add: plain_digit_char)
  qed
qed

lemma show_nat_nonempty: "show_nat n \<noteq> []"
  by (subst show_nat.simps) simp

lemma digits_loop_digits:
  "list_all is_digit ds \<Longrightarrow>
     digits_loop ds acc = Some (foldl (\<lambda>a c. 10 * a + digit_val c) acc ds)"
  by (induction ds acc rule: digits_loop.induct) auto

lemma parse_nat_digits:
  "list_all is_digit ds \<Longrightarrow> ds \<noteq> [] \<Longrightarrow>
     parse_nat ds = Some (foldl (\<lambda>a c. 10 * a + digit_val c) 0 ds)"
  by (cases ds) (simp_all add: parse_nat_def digits_loop_digits)

lemma foldl_show_nat: "foldl (\<lambda>a c. 10 * a + digit_val c) 0 (show_nat n) = n"
proof (induction n rule: show_nat.induct)
  case (1 n)
  show ?case
  proof (cases "n < 10")
    case True
    then show ?thesis
      using digit_char_cases [of n] by (subst show_nat.simps) simp
  next
    case False
    with "1.IH" show ?thesis
      using digit_char_cases [of "n mod 10"] by (subst show_nat.simps) simp
  qed
qed

lemma plain_is_digit: "list_all plain ds \<Longrightarrow> list_all is_digit ds"
  by (induction ds) (auto simp: plain_def)

lemma parse_nat_show_nat: "parse_nat (show_nat n) = Some n"
  by (simp add: parse_nat_digits plain_is_digit show_nat_plain show_nat_nonempty foldl_show_nat)

lemma strip_id:
  assumes "s \<noteq> []" "\<not> is_space (hd s)" "\<not> is_space (last s)"
  shows "strip s = s"
proof -
  from assms have 1: "dropWhile is_space s = s" by (cases s) auto
  from assms have "rev s \<noteq> []" "\<not> is_space (hd (rev s))" by (simp_all add: hd_rev)
  then have 2: "dropWhile is_space (rev s) = rev s" by (cases "rev s") auto
  show ?thesis by (simp add: strip_def 1 2)
qed

lemma show_nat_last_plain: "plain (last (show_nat n))"
  using show_nat_plain [of n] show_nat_nonempty [of n]
  by (metis last_in_set list_all_iff)

lemma show_nat_hd_plain: "plain (hd (show_nat n))"
  using show_nat_plain [of n] show_nat_nonempty [of n]
  by (metis hd_in_set list_all_iff)

lemma py_int_show_int: "py_int (show_int i) = Inr i"
proof (cases "i < 0")
  case True
  have "strip (CHR ''-'' # show_nat (nat (- i))) = CHR ''-'' # show_nat (nat (- i))"
    using show_nat_last_plain [of "nat (- i)"] show_nat_nonempty [of "nat (- i)"]
    by (intro strip_id) (simp_all add: plain_def is_space_def)
  with True show ?thesis
    by (simp add: py_int_def show_int_def parse_nat_show_nat)
next
  case False
  obtain c cs where s: "show_nat (nat i) = c # cs"
    using show_nat_nonempty [of "nat i"] by (cases "show_nat (nat i)") auto
  have p: "plain c" using show_nat_hd_plain [of "nat i"] by (simp add: s)
  have "strip (show_nat (nat i)) = show_nat (nat i)"
    using show_nat_last_plain [of "nat i"] show_nat_hd_plain [of "nat i"] show_nat_nonempty [of "nat i"]
    by (intro strip_id) (simp_all add: plain_def)
  then have st: "strip (show_nat (nat i)) = c # cs" by (simp add: s)
  have pn: "parse_nat (c # cs) = Some (nat i)" using parse_nat_show_nat [of "nat i"] by (simp add: s)
  from False p show ?thesis
    by (simp add: py_int_def show_int_def st pn plain_def)
qed

lemma split_comma_plain:
  "CHR '','' \<notin> set f \<Longrightarrow> split_comma cur f = [rev cur @ f]"
  by (induction f arbitrary: cur) auto

lemma split_comma_field:
  "CHR '','' \<notin> set f \<Longrightarrow>
     split_comma cur (f @ CHR '','' # rest) = (rev cur @ f) # split_comma [] rest"
  by (induction f arbitrary: cur) auto

lemma split_dots_plain:
  "CHR ''.'' \<notin> set f \<Longrightarrow> split_dots cur f = [rev cur @ f]"
  by (induction cur f rule: split_dots.induct) auto

lemma split_dots_range:
  "CHR ''.'' \<notin> set f \<Longrightarrow> CHR ''.'' \<notin> set g \<Longrightarrow>
     split_dots cur (f @ ''..'' @ g) = [rev cur @ f, g]"
proof (induction f arbitrary: cur)
  case Nil
  then show ?case by (simp add: split_dots_plain)
next
  case (Cons c f)
  then show ?case by (cases "f @ ''..'' @ g") auto
qed

lemma contains_str_dots_plain:
  "CHR ''.'' \<notin> set f \<Longrightarrow> \<not> contains_str f ''..''"
proof (induction f)
  case Nil
  show ?case by simp
next
  case (Cons c f)
  then show ?case by (cases f) auto
qed

lemma contains_str_dots_range: "contains_str (f @ ''..'' @ g) ''..''"
  by (induction f) auto

lemma show_nat_no: "c \<in> set (show_nat n) \<Longrightarrow> plain c"
  using show_nat_plain [of n] by (simp add: list_all_iff)

lemma show_int_no_comma: "CHR '','' \<notin> set (show_int i)"
  using show_nat_no [of "CHR '',''"] by (auto simp: show_int_def plain_def)

lemma show_int_no_dot: "CHR ''.'' \<notin> set (show_int i)"
  using show_nat_no [of "CHR ''.''"] by (auto simp: show_int_def plain_def)

lemma show_int_nonempty: "show_int i \<noteq> []"
  by (simp add: show_int_def show_nat_nonempty)

lemma show_int_hd: "hd (show_int i) \<notin> {CHR ''I'', CHR ''S'', CHR ''T'', CHR ''Z''}"
  using show_nat_hd_plain [of "nat i"] by (auto simp: show_int_def plain_def)

lemma id_elem_render: "id_elem mx (render_item it) = Inr (id_item_range mx it)"
proof (cases it)
  case (Single i)
  then show ?thesis
    by (simp add: id_elem_def render_item_def id_item_range_def
        contains_str_dots_plain show_int_no_dot py_int_show_int)
next
  case (Range a b)
  have "split_dots [] (show_int a @ ''..'' @ show_int b) = [show_int a, show_int b]"
    using split_dots_range [where f = "show_int a" and g = "show_int b" and cur = "[]"]
    by (simp add: show_int_no_dot)
  then show ?thesis
    using contains_str_dots_range [of "show_int a" "show_int b"] Range
    by (simp add: id_elem_def render_item_def id_item_range_def py_int_show_int)
qed

lemma render_item_no_comma: "CHR '','' \<notin> set (render_item it)"
  by (cases it) (simp_all add: render_item_def show_int_no_comma)

lemma render_item_nonempty: "render_item it \<noteq> []"
  by (cases it) (simp_all add: render_item_def show_int_nonempty)

lemma render_item_hd: "hd (render_item it) \<notin> {CHR ''I'', CHR ''S'', CHR ''T'', CHR ''Z''}"
  using show_int_hd show_int_nonempty
  by (cases it) (simp_all add: render_item_def hd_append)

lemma split_comma_render:
  "its \<noteq> [] \<Longrightarrow> split_comma [] (render_ids its) = map render_item its"
proof (induction its rule: render_ids.induct)
  case 1
  then show ?case by simp
next
  case (2 it)
  show ?case using split_comma_plain [OF render_item_no_comma, of "[]" it] by simp
next
  case (3 it it' its)
  then show ?case
    using split_comma_field [OF render_item_no_comma, of "[]" it "render_ids (it' # its)"]
    by simp
qed

lemma id_elems_render:
  "id_elems mx (map render_item its) = Inr (concat (map (id_item_range mx) its))"
  by (induction its) (simp_all add: id_elem_render)

lemma render_ids_hd: "its \<noteq> [] \<Longrightarrow> render_ids its \<noteq> [] \<and> hd (render_ids its) = hd (render_item (hd its))"
  by (induction its rule: render_ids.induct) (simp_all add: render_item_nonempty hd_append)

lemma id_list_render:
  assumes "its \<noteq> []"
  shows "id_list E s (render_ids its)
       = Inr (filter (\<lambda>i. 0 \<le> i \<and> i \<le> maxint s) (concat (map (id_item_range (maxint s)) its)))"
proof -
  obtain c cs where r: "render_ids its = c # cs"
    using render_ids_hd [OF assms] by (cases "render_ids its") auto
  have c: "c \<notin> {CHR ''I'', CHR ''S'', CHR ''T'', CHR ''Z''}"
    using render_ids_hd [OF assms] render_item_hd [of "hd its"] by (simp add: r)
  have e: "id_elems (maxint s) (split_comma [] (c # cs))
         = Inr (concat (map (id_item_range (maxint s)) its))"
    using split_comma_render [OF assms] id_elems_render [of "maxint s" its] by (simp add: r)
  show ?thesis using c unfolding id_list_def r e by simp
qed

lemma after_colon_id: "after_colon (''id:'' @ r) = r" "after_colon (''mid:'' @ r) = r"
  by (simp_all add: after_colon_def)

lemma search_str_render:
  assumes "its \<noteq> []"
  shows "search_str E s tag_ns (''id:'' @ render_ids its)
       = Inr (IntSet_of (filter (\<lambda>i. 0 \<le> i \<and> i \<le> maxint s) (concat (map (id_item_range (maxint s)) its))))"
    and "search_str E s tag_ns (''mid:'' @ render_ids its)
       = Inr (IntSet_of (filter (\<lambda>i. 0 \<le> i \<and> i \<le> maxint s) (concat (map (id_item_range (maxint s)) its))))"
  using id_list_render [OF assms, of E s]
  by (simp_all add: search_str_def Let_def after_colon_def)

lemma IntSet_of_member:
  "n |\<in>| IntSet_of (filter (\<lambda>i. 0 \<le> i \<and> i \<le> mx) (concat (map (id_item_range mx) its)))
   \<longleftrightarrow> (\<exists>it \<in> set its. case it of Single i \<Rightarrow> i = int n \<and> i \<le> mx
                              | Range a b \<Rightarrow> a \<le> int n \<and> int n \<le> b \<and> int n < mx)"
  (is "?L \<longleftrightarrow> ?R")
proof
  assume ?L
  then obtain i where i: "i \<in> set (concat (map (id_item_range mx) its))" "0 \<le> i" "i \<le> mx" "n = nat i"
    by (auto simp: IntSet_of_def fset_of_list.rep_eq)
  then obtain it where it: "it \<in> set its" "i \<in> set (id_item_range mx it)" by auto
  show ?R
  proof (cases it)
    case (Single j)
    with it i show ?thesis by (auto simp: id_item_range_def intro!: bexI [of _ it])
  next
    case (Range a b)
    with it i show ?thesis by (auto simp: id_item_range_def intro!: bexI [of _ it])
  qed
next
  assume ?R
  then obtain it where it: "it \<in> set its"
    and c: "case it of Single i \<Rightarrow> i = int n \<and> i \<le> mx
            | Range a b \<Rightarrow> a \<le> int n \<and> int n \<le> b \<and> int n < mx" by auto
  have "int n \<in> set (id_item_range mx it) \<and> int n \<le> mx"
    using c by (cases it) (auto simp: id_item_range_def)
  with it have "int n \<in> set (filter (\<lambda>i. 0 \<le> i \<and> i \<le> mx) (concat (map (id_item_range mx) its)))"
    by auto
  then have "nat (int n) |\<in>| IntSet_of (filter (\<lambda>i. 0 \<le> i \<and> i \<le> mx) (concat (map (id_item_range mx) its)))"
    unfolding IntSet_of_def fset_of_list.rep_eq by (metis (no_types, lifting) image_eqI list.set_map)
  then show ?L by simp
qed


text \<open>
  C7 (amended).  For a non-empty list of integers and ranges written as text
  (decimal integers, a range as \<open>a..b\<close>, commas between the items), \<open>_search\<close> on
  \<open>id:<list>\<close> and on \<open>mid:<list>\<close> returns the IntSet that holds exactly the numbers
  \<open>n\<close> for which some listed integer \<open>i\<close> equals \<open>n\<close> with \<open>0 \<le> n \<le> maxint\<close>, or some listed
  range \<open>a..b\<close> has \<open>a \<le> n \<le> b\<close> and \<open>0 \<le> n < maxint\<close>.  Values outside the bounds are
  left out, and whether an id was ever added to the index plays no part.
\<close>

theorem id_search_rendered_list:
  assumes "its \<noteq> []"
  shows "search_term E s tag_ns (TStr (''id:'' @ render_ids its)) = Inr (listed_ids (maxint s) its)
       \<and> search_term E s tag_ns (TStr (''mid:'' @ render_ids its)) = Inr (listed_ids (maxint s) its)
       \<and> (\<forall>n. n |\<in>| listed_ids (maxint s) its \<longleftrightarrow>
             (\<exists>it \<in> set its. case it of
                  Single i \<Rightarrow> i = int n \<and> i \<le> maxint s
                | Range a b \<Rightarrow> a \<le> int n \<and> int n \<le> b \<and> int n < maxint s))"
  using search_str_render [OF assms, of E s tag_ns] IntSet_of_member [of _ "maxint s" its]
  by (simp add: listed_ids_def)


text \<open>
  The instance of the specification: in the engine that holds the ids 10, 11, 12 and
  20, \<open>id:10..12,20\<close> yields \<open>{10, 11, 12, 20}\<close>.
\<close>

theorem id_search_rendered_list_witness:
  "search_term demo_env ids_engine [] (TStr ''id:10..12,20'') = Inr {|10, 11, 12, 20|}
 \<and> search_term demo_env ids_engine [] (TStr ''mid:10..12,20'') = Inr {|10, 11, 12, 20|}"
proof -
  have r: "render_ids [Range 10 12, Single 20] = ''10..12,20''"
    by (simp add: render_item_def show_int_def show_nat.simps digit_char_def)
  have l: "listed_ids (maxint ids_engine) [Range 10 12, Single 20] = {|10, 11, 12, 20|}"
    by (simp add: listed_ids_def id_item_range_def IntSet_of_def ids_engine_def fset_eval)
  show ?thesis
    using id_search_rendered_list [of "[Range 10 12, Single 20]" demo_env ids_engine "[]",
        unfolded r l]
    by simp
qed


text \<open>
  C7 as stated fails on its own example: after \<open>add_results\<close> of the ids 10, 11, 12 and
  20 with keyword \<open>x\<close>, the search \<open>id:5..9\<close> yields \<open>{5, 6, 7, 8, 9}\<close>, not the empty set.
\<close>

theorem id_search_unadded_ids:
  "add_results demo_env demo_engine [([10, 11, 12, 20], [''x''])] None [] True 0
     = Inr ((3, [10, 11, 12, 20]), ids_engine)
 \<and> search_term demo_env ids_engine [] (TStr ''id:5..9'') = Inr {|5, 6, 7, 8, 9|}
 \<and> search demo_env ids_engine (TStr ''id:5..9'') [] True None None
     = Inr (TStr ''id:5..9'', {|5, 6, 7, 8, 9|})
 \<and> {|5, 6, 7, 8, 9|} \<noteq> ({||} :: intset)"
proof -
  have 1: "add_results demo_env demo_engine [([10, 11, 12, 20], [''x''])] None [] True 0
     = Inr ((3, [10, 11, 12, 20]), ids_engine)"
    by (simp add: run_defs demo_defs ids_engine_def)
  have 2: "search_term demo_env ids_engine [] (TStr ''id:5..9'') = Inr {|5, 6, 7, 8, 9|}"
    by (simp add: ids_engine_def search_str_def after_colon_def
      id_list_def id_elem_def py_int_def strip_def parse_nat_def is_digit_def digit_val_def is_space_def
      IntSet_of_def fset_eval)
  have 3: "search demo_env ids_engine (TStr ''id:5..9'') [] True None None
     = Inr (TStr ''id:5..9'', {|5, 6, 7, 8, 9|})"
    using 2 by (simp add: search_def search_ops_def parsed_def demo_env_simps ids_engine_def fset_eval)
  show ?thesis using 1 2 3 by simp
qed


section \<open>Masking\<close>

lemma masking_of_filter:
  "masking_of terms tags = Inr m \<Longrightarrow> m = filter (\<lambda>tag. tag_in_terms tag terms = Inr False) tags"
proof (induction tags arbitrary: m)
  case Nil
  then show ?case by simp
next
  case (Cons tag tags)
  then show ?case by (auto split: sum.splits if_splits)
qed

lemma masking_of_none:
  "\<forall>tag \<in> set tags. tag_in_terms tag terms = Inr False \<Longrightarrow> masking_of terms tags = Inr tags"
  by (induction tags) auto

lemma masking_of_some:
  assumes "\<forall>tag \<in> set tags. \<exists>b. tag_in_terms tag terms = Inr b"
  shows "\<exists>m. masking_of terms tags = Inr m \<and> length m \<le> length tags
           \<and> ((\<exists>tag \<in> set tags. tag_in_terms tag terms = Inr True) \<longrightarrow> length m < length tags)"
  using assms
proof (induction tags)
  case Nil
  show ?case by simp
next
  case (Cons tag tags)
  then obtain m where m: "masking_of terms tags = Inr m" "length m \<le> length tags"
     "(\<exists>tag \<in> set tags. tag_in_terms tag terms = Inr True) \<longrightarrow> length m < length tags"
    by auto
  from Cons.prems obtain b where b: "tag_in_terms tag terms = Inr b" by auto
  show ?case using m b by (cases b) auto
qed

lemma fold_minus_union:
  "fold (\<lambda>x acc. acc |-| x) rs (r :: intset) = r |-| fold (|\<union>|) rs {||}"
proof -
  have "\<And>r u. fold (\<lambda>x acc. acc |-| x) rs (r |-| u) = r |-| fold (|\<union>|) rs (u :: intset)"
  proof (induction rs)
    case Nil
    show ?case by simp
  next
    case (Cons x rs)
    have "r |-| u |-| x = r |-| (x |\<union>| u)" by auto
    then show ?case using Cons [of r "x |\<union>| u"] by simp
  qed
  from this [of r "{||}"] show ?thesis by simp
qed

lemma search_ops_unmasked_cases:
  "search_ops E terms ns None mt = Inr (case search_ops E terms ns None mt of Inr x \<Rightarrow> x | Inl _ \<Rightarrow> undefined)"
  by (simp add: search_ops_def Let_def split: option.splits)

lemmas search_defs = search_def search_ops_def parsed_def search_str_def

text \<open>
  C6 (amended).  For a non-empty \<open>mask_tags\<close>: when none of the mask tags occurs in the
  query (as a substring of the query text, or as an element of a tuple or list), \<open>search\<close>
  subtracts the result of every mask tag from the evaluated result; when at least one
  of them occurs, \<open>search\<close> subtracts none of them and returns what it returns without
  \<open>mask_tags\<close>.
\<close>

theorem mask_tags_all_or_none:
  assumes "tags \<noteq> []"
  shows "((\<forall>tag \<in> set tags. tag_in_terms tag terms = Inr False) \<longrightarrow>
            search E s terms ns md (Some tags) mt =
              (case search E s terms ns False None mt of
                 Inl e \<Rightarrow> Inl e
               | Inr (ops, r) \<Rightarrow>
                   (case search_terms E s ns (map TStr tags) of
                      Inl e \<Rightarrow> Inl e
                    | Inr rs \<Rightarrow>
                        Inr (TTuple (TFun IntSet_Sub # ops # map TStr tags),
                             (r |-| fold (|\<union>|) rs {||})
                               |-| (if md then deleted_ids s else {||})))))
       \<and> ((\<forall>tag \<in> set tags. \<exists>b. tag_in_terms tag terms = Inr b)
            \<and> (\<exists>tag \<in> set tags. tag_in_terms tag terms = Inr True) \<longrightarrow>
            search E s terms ns md (Some tags) mt = search E s terms ns md None mt)"
proof (intro conjI impI)
  assume none: "\<forall>tag \<in> set tags. tag_in_terms tag terms = Inr False"
  obtain tag tags' where t: "tags = tag # tags'" using assms by (cases tags) auto
  obtain ops where ops: "search_ops E terms ns None mt = Inr ops"
    using search_ops_unmasked_cases by blast
  have m: "masking_of terms (tag # tags') = Inr (tag # tags')"
    using masking_of_none [OF none] by (simp add: t)
  have so: "search_ops E terms ns (Some tags) mt
          = Inr (TTuple (TFun IntSet_Sub # ops # map TStr tags))"
    using ops m unfolding search_ops_def Let_def t by (simp split: option.splits)
  show "search E s terms ns md (Some tags) mt =
              (case search E s terms ns False None mt of
                 Inl e \<Rightarrow> Inl e
               | Inr (ops, r) \<Rightarrow>
                   (case search_terms E s ns (map TStr tags) of
                      Inl e \<Rightarrow> Inl e
                    | Inr rs \<Rightarrow>
                        Inr (TTuple (TFun IntSet_Sub # ops # map TStr tags),
                             (r |-| fold (|\<union>|) rs {||})
                               |-| (if md then deleted_ids s else {||}))))"
    unfolding search_def so ops
    by (simp add: fold_minus_union split: sum.splits)
next
  assume a: "(\<forall>tag \<in> set tags. \<exists>b. tag_in_terms tag terms = Inr b)
            \<and> (\<exists>tag \<in> set tags. tag_in_terms tag terms = Inr True)"
  obtain tag tags' where t: "tags = tag # tags'" using assms by (cases tags) auto
  from masking_of_some [of tags terms] a
  obtain m where m: "masking_of terms tags = Inr m" "length m < length tags" by blast
  have "search_ops E terms ns (Some tags) mt = search_ops E terms ns None mt"
    using m unfolding search_ops_def Let_def t by (simp split: option.splits)
  then show "search E s terms ns md (Some tags) mt = search E s terms ns md None mt"
    by (simp add: search_def)
qed


text \<open>
  With the mask tags \<open>in:spam\<close> and \<open>in:trash\<close>: the query \<open>in:inbox\<close> loses the ids of both,
  the query \<open>in:spam\<close> loses none.
\<close>

theorem mask_tags_all_or_none_witness:
  "search demo_env mask_engine (TStr ''in:inbox'') [] True (Some [''in:spam'', ''in:trash'']) None
     = Inr (TTuple [TFun IntSet_Sub, TStr ''in:inbox'', TStr ''in:spam'', TStr ''in:trash''], {|5|})
 \<and> search demo_env mask_engine (TStr ''in:spam'') [] True (Some [''in:spam'', ''in:trash'']) None
     = Inr (TStr ''in:spam'', {|3|})"
proof -
  have 1: "search demo_env mask_engine (TStr ''in:inbox'') [] False None None
         = Inr (TStr ''in:inbox'', {|3, 4, 5|})"
    by (simp add: search_defs run_defs mask_engine_def)
  have 2: "search_terms demo_env mask_engine [] (map TStr [''in:spam'', ''in:trash''])
         = Inr [{|3|}, {|3, 4|}]"
    by (simp add: search_defs run_defs mask_engine_def)
  have 3: "search demo_env mask_engine (TStr ''in:spam'') [] True None None
         = Inr (TStr ''in:spam'', {|3|})"
    by (simp add: search_defs run_defs mask_engine_def)
  have d: "deleted_ids mask_engine = {|0|}" by (simp add: mask_engine_def)
  have a: "search demo_env mask_engine (TStr ''in:inbox'') [] True (Some [''in:spam'', ''in:trash'']) None
     = Inr (TTuple [TFun IntSet_Sub, TStr ''in:inbox'', TStr ''in:spam'', TStr ''in:trash''], {|5|})"
    using mask_tags_all_or_none [of "[''in:spam'', ''in:trash'']" "TStr ''in:inbox''"
        demo_env mask_engine "[]" True None]
    unfolding 1 2 d by (simp add: tag_in_terms_def fset_eval)
  have b: "search demo_env mask_engine (TStr ''in:spam'') [] True (Some [''in:spam'', ''in:trash'']) None
     = Inr (TStr ''in:spam'', {|3|})"
    using mask_tags_all_or_none [of "[''in:spam'', ''in:trash'']" "TStr ''in:spam''"
        demo_env mask_engine "[]" True None]
    unfolding 3 by (simp add: tag_in_terms_def)
  show ?thesis using a b by simp
qed

text \<open>
  C6 as stated fails: \<open>in:trash\<close> does not occur in the query text \<open>in:spam\<close> and holds
  id 3, yet the search for \<open>in:spam\<close> with the mask tags \<open>in:spam\<close> and \<open>in:trash\<close> returns
  id 3.
\<close>

theorem mask_tags_partial:
  "add_results demo_env demo_engine
     [([3], [''in:spam'', ''in:trash'']), ([4], [''in:trash'']), ([3, 4, 5], [''in:inbox''])]
     None [] False 0 = Inr ((3, [3, 4, 3, 4, 5]), mask_engine)
 \<and> tag_in_terms ''in:trash'' (TStr ''in:spam'') = Inr False
 \<and> search_term demo_env mask_engine [] (TStr ''in:trash'') = Inr {|3, 4|}
 \<and> search demo_env mask_engine (TStr ''in:spam'') [] True (Some [''in:spam'', ''in:trash'']) None
     = Inr (TStr ''in:spam'', {|3|})
 \<and> 3 |\<in>| {|3, 4 :: nat|}"
proof -
  have 1: "add_results demo_env demo_engine
     [([3], [''in:spam'', ''in:trash'']), ([4], [''in:trash'']), ([3, 4, 5], [''in:inbox''])]
     None [] False 0 = Inr ((3, [3, 4, 3, 4, 5]), mask_engine)"
    by (simp add: run_defs demo_defs mask_engine_def)
  have 2: "tag_in_terms ''in:trash'' (TStr ''in:spam'') = Inr False"
    by (simp add: tag_in_terms_def)
  have 3: "search_term demo_env mask_engine [] (TStr ''in:trash'') = Inr {|3, 4|}"
    by (simp add: search_defs run_defs mask_engine_def)
  have 4: "search demo_env mask_engine (TStr ''in:spam'') [] True (Some [''in:spam'', ''in:trash'']) None
     = Inr (TStr ''in:spam'', {|3|})"
    by (simp add: search_defs run_defs mask_engine_def tag_in_terms_def)
  show ?thesis using 1 2 3 4 by simp
qed


section \<open>The operand in:*\<close>

lemma expand_ops_append:
  "expand_ops E s ns (a @ b) =
     (case expand_ops E s ns a of
        Inl e \<Rightarrow> Inl e
      | Inr (l, s1) \<Rightarrow>
          (case expand_ops E s1 ns b of
             Inl e \<Rightarrow> Inl e
           | Inr (l', s2) \<Rightarrow> Inr (l @ l', s2)))"
proof (induction a arbitrary: s)
  case Nil
  show ?case by (simp split: sum.splits)
next
  case (Cons x a)
  obtain op kw where x: "x = (op, kw)" by (cases x)
  show ?case unfolding x by (simp add: Cons split: sum.splits prod.splits)
qed

lemma op_kwi_plus_asterisk:
  assumes "mutate_op op = Inr IntSet_Or" "kw = ''in:*'' \<or> kw = tag_quote E ''in:*''"
  shows "op_kwi E s ns op kw = Inr ([], s)"
  using assms by (auto simp: op_kwi_def)

lemma expand_ops_plus_asterisk:
  assumes "mutate_op op = Inr IntSet_Or" "kw = ''in:*'' \<or> kw = tag_quote E ''in:*''"
  shows "expand_ops E s ns (pre @ (op, kw) # post) = expand_ops E s ns (pre @ post)"
proof -
  have h: "expand_ops E s1 ns ((op, kw) # post) = expand_ops E s1 ns post" for s1
    by (simp add: op_kwi_plus_asterisk [OF assms] split: sum.splits prod.splits)
  show ?thesis unfolding expand_ops_append by (simp only: h)
qed

lemma mutate_op_minus: "mutate_op (OpStr ''-'') = Inr IntSet_Sub"
  by (simp add: mutate_op_def)

lemma expand_ops_explicit_tags:
  assumes "\<forall>t \<in> set ts. t \<noteq> ''in:*'' \<and> t \<noteq> tag_quote E ''in:*''"
  shows "expand_ops E s [] (map (\<lambda>t. (OpStr ''-'', t)) ts) =
     (case index_tags E s IntSet_Sub ts of Inl e \<Rightarrow> Inl e | Inr l \<Rightarrow> Inr (l, s))"
  using assms
proof (induction ts)
  case Nil
  show ?case by simp
next
  case (Cons t ts)
  have k: "op_kwi E s [] (OpStr ''-'') t =
      (case keyword_index E s t None False of Inl e \<Rightarrow> Inl e | Inr (idx, s1) \<Rightarrow> Inr ([(IntSet_Sub, t, idx)], s))"
    using Cons.prems keyword_index_no_create [of E s t]
    by (auto simp: op_kwi_def mutate_op_minus ns_kw_def split: sum.splits)
  show ?case
    using Cons by (simp add: k split: sum.splits prod.splits)
qed

lemma op_kwi_minus_asterisk:
  assumes "mutate_op op = Inr IntSet_Sub" "kw = ''in:*'' \<or> kw = tag_quote E ''in:*''"
  shows "op_kwi E s ns op kw =
     (case iter_tags E s ns of
        Inl e \<Rightarrow> Inl e
      | Inr tags \<Rightarrow>
          (case index_tags E s IntSet_Sub (map fst tags) of
             Inl e \<Rightarrow> Inl e
           | Inr l \<Rightarrow> Inr (l, s)))"
  using assms by (auto simp: op_kwi_def)

lemma expand_ops_minus_asterisk:
  assumes "mutate_op op = Inr IntSet_Sub" "kw = ''in:*'' \<or> kw = tag_quote E ''in:*''"
    and "iter_tags E s [] = Inr tags"
    and "\<forall>t \<in> set tags. fst t \<noteq> ''in:*'' \<and> fst t \<noteq> tag_quote E ''in:*''"
  shows "expand_ops E s [] ((op, kw) # post)
       = expand_ops E s [] (map (\<lambda>t. (OpStr ''-'', fst t)) tags @ post)"
proof -
  have e: "expand_ops E s [] (map (\<lambda>t. (OpStr ''-'', fst t)) tags) =
     (case index_tags E s IntSet_Sub (map fst tags) of Inl e \<Rightarrow> Inl e | Inr l \<Rightarrow> Inr (l, s))"
    using expand_ops_explicit_tags [of "map fst tags" E s] assms(4) by (simp add: comp_def)
  show ?thesis
    unfolding expand_ops_append e
    by (simp add: op_kwi_minus_asterisk [OF assms(1,2)] assms(3) split: sum.splits prod.splits)
qed

lemmas tag_defs = iter_tags_def iter_tags_from.simps bucket_tags_def items_concat endswith_def

text \<open>
  C5 (amended).  In \<open>mutate\<close>, an operand keyword \<open>in:*\<close> (or its quoted form) is expanded
  as follows.  When its op is \<open>+\<close> (union) the operand is skipped: the call behaves as
  if the operand were not in the list, and no error is raised.  When its op is \<open>-\<close>
  (subtract) and the tag namespace is empty, the operand stands for one \<open>-\<close> operation on
  every tag that \<open>iter_tags\<close> lists in the state before the entry is expanded, in that
  order; an error of \<open>iter_tags\<close> is the error of the call.
\<close>

theorem in_star_operand:
  assumes "kw = ''in:*'' \<or> kw = tag_quote E ''in:*''"
  shows "(mutate_op op = Inr IntSet_Or \<longrightarrow>
            mutate E s ((mset, pre @ (op, kw) # post) # ml) rh ns rnd now
              = mutate E s ((mset, pre @ post) # ml) rh ns rnd now)
       \<and> (mutate_op op = Inr IntSet_Sub \<longrightarrow>
            (\<forall>tags. iter_tags E s [] = Inr tags
               \<and> (\<forall>t \<in> set tags. fst t \<noteq> ''in:*'' \<and> fst t \<noteq> tag_quote E ''in:*'') \<longrightarrow>
               mutate E s ((mset, (op, kw) # post) # ml) rh [] rnd now
                 = mutate E s ((mset, map (\<lambda>t. (OpStr ''-'', fst t)) tags @ post) # ml) rh [] rnd now)
          \<and> (\<forall>e. iter_tags E s ns = Inl e \<longrightarrow>
               mutate E s ((mset, (op, kw) # post) # ml) rh ns rnd now = Inl e))"
proof (intro conjI impI allI)
  assume "mutate_op op = Inr IntSet_Or"
  from expand_ops_plus_asterisk [OF this assms]
  show "mutate E s ((mset, pre @ (op, kw) # post) # ml) rh ns rnd now
              = mutate E s ((mset, pre @ post) # ml) rh ns rnd now"
    by (simp add: mutate_def)
next
  fix tags
  assume o: "mutate_op op = Inr IntSet_Sub"
    and t: "iter_tags E s [] = Inr tags
               \<and> (\<forall>t \<in> set tags. fst t \<noteq> ''in:*'' \<and> fst t \<noteq> tag_quote E ''in:*'')"
  from expand_ops_minus_asterisk [OF o assms, of s tags post] t
  show "mutate E s ((mset, (op, kw) # post) # ml) rh [] rnd now
                 = mutate E s ((mset, map (\<lambda>t. (OpStr ''-'', fst t)) tags @ post) # ml) rh [] rnd now"
    by (simp add: mutate_def)
next
  fix e
  assume o: "mutate_op op = Inr IntSet_Sub" and i: "iter_tags E s ns = Inl e"
  show "mutate E s ((mset, (op, kw) # post) # ml) rh ns rnd now = Inl e"
    by (simp add: mutate_def op_kwi_minus_asterisk [OF o assms] i)
qed


text \<open>
  In the engine with the tags \<open>in:spam\<close>, \<open>in:trash\<close> and \<open>in:inbox\<close>, subtracting id 3
  from \<open>in:*\<close> takes it out of all three, and adding it to \<open>in:*\<close> changes no bucket.
\<close>

theorem in_star_operand_witness:
  "(case mutate demo_env mask_engine [(Ids {|3|}, [(OpStr ''-'', ''in:*'')])] None [] 7 0 of
      Inl e \<Rightarrow> False
    | Inr (r, s') \<Rightarrow>
        mutations r = 3 \<and> changed r = {|3|}
      \<and> getitem demo_env s' ''in:spam'' = Inr {||}
      \<and> getitem demo_env s' ''in:trash'' = Inr {|4|}
      \<and> getitem demo_env s' ''in:inbox'' = Inr {|4, 5|})
 \<and> mutate demo_env mask_engine [(Ids {|3|}, [(OpStr ''+'', ''in:*'')])] None [] 7 0
     = Inr (\<lparr>mutations = 0, changed = {||}, history_rec = None, changes = Some []\<rparr>,
            mask_engine\<lparr>records := (records mask_engine)(1000 \<mapsto> RStatus [''ver'' \<mapsto> 2]),
                          history := [''ver'' \<mapsto> 2]\<rparr>)"
proof -
  have t: "iter_tags demo_env mask_engine [] =
      Inr [(''in:spam'', [], {|3|}), (''in:trash'', [], {|3, 4|}), (''in:inbox'', [], {|3, 4, 5|})]"
    by (simp add: tag_defs run_defs mask_engine_def)
  have m: "mutate demo_env mask_engine
       [(Ids {|3|}, [(OpStr ''-'', ''in:spam''), (OpStr ''-'', ''in:trash''),
                     (OpStr ''-'', ''in:inbox'')])] None [] 7 0 =
      Inr (\<lparr>mutations = 3, changed = {|3|}, history_rec = None,
              changes = Some
                 [(''in:spam'', 2001, demo_encode (Some {|3|}), demo_encode (Some {||})),
                  (''in:trash'', 2002, demo_encode (Some {|3|}), demo_encode (Some {||})),
                  (''in:inbox'', 2003, demo_encode (Some {|3|}), demo_encode (Some {||}))]\<rparr>,
           \<lparr>records =
              [2001 \<mapsto> RBytes (serialize []),
               2002 \<mapsto> RBytes (serialize [(''in:trash'', [], demo_encode (Some {|4|}))]),
               2003 \<mapsto> RBytes (serialize [(''in:inbox'', [], demo_encode (Some {|4, 5|}))]),
               1000 \<mapsto> RStatus [''ver'' \<mapsto> 2],
               2004 \<mapsto> RBytes (serialize
                  [(''vdate:now'', [], demo_encode (Some {|3|})),
                   (''version:ii'', [], demo_encode (Some {|3|}))])],
              keys = [demo_hash ''in:spam'' \<mapsto> (0, 2001), demo_hash ''in:trash'' \<mapsto> (0, 2002),
                      demo_hash ''in:inbox'' \<mapsto> (0, 2003)],
              history = [''ver'' \<mapsto> 2], l1_begin = 2001, l2_begin = 2004,
              l2_buckets = 2, maxint = 6, deleted_ids = {|0|},
              part_spaces_1 = {''version:ii'', ''vdate:now'', ''in:spam'', ''in:trash'', ''in:inbox''}\<rparr>)"
    by (simp add: run_defs mask_engine_def)
  have e: "mutate demo_env mask_engine [(Ids {|3|}, [])] None [] 7 0
     = Inr (\<lparr>mutations = 0, changed = {||}, history_rec = None, changes = Some []\<rparr>,
            mask_engine\<lparr>records := (records mask_engine)(1000 \<mapsto> RStatus [''ver'' \<mapsto> 2]),
                          history := [''ver'' \<mapsto> 2]\<rparr>)"
    by (simp add: run_defs mask_engine_def)
  note inst = in_star_operand [of "''in:*''" demo_env _ mask_engine "Ids {|3|}" "[]" "[]" "[]" None "[]" 7 0]
  have a: "mutate demo_env mask_engine [(Ids {|3|}, [(OpStr ''-'', ''in:*'')])] None [] 7 0
         = mutate demo_env mask_engine
       [(Ids {|3|}, [(OpStr ''-'', ''in:spam''), (OpStr ''-'', ''in:trash''),
                     (OpStr ''-'', ''in:inbox'')])] None [] 7 0"
    using inst [of "OpStr ''-''"] t by (simp add: mutate_op_def demo_env_simps)
  have b: "mutate demo_env mask_engine [(Ids {|3|}, [(OpStr ''+'', ''in:*'')])] None [] 7 0
         = mutate demo_env mask_engine [(Ids {|3|}, [])] None [] 7 0"
    using inst [of "OpStr ''+''"] by (simp add: mutate_op_def)
  show ?thesis
    unfolding a b m e by (simp add: run_defs)
qed

text \<open>
  C5 as stated fails: \<open>+\<close> with \<open>in:*\<close> is not an error, the call returns with no
  mutation.
\<close>

theorem in_star_plus_no_error:
  "mutate demo_env demo_engine [(Ids {|1|}, [(OpStr ''+'', ''in:*'')])] None [] 7 0
     = Inr (\<lparr>mutations = 0, changed = {||}, history_rec = None, changes = Some []\<rparr>,
            demo_engine\<lparr>records := [1000 \<mapsto> RStatus [''ver'' \<mapsto> 2]],
                          history := [''ver'' \<mapsto> 2]\<rparr>)"
  by (simp add: run_defs demo_engine_def)


end
